theory Spec2Isabelle
  imports Complex_Main "HOL-Library.AList" "HOL-Library.While_Combinator" "HOL-Library.Sublist"
begin

section \<open>JavaScript values and JSON text\<close>

text \<open>
  The events of the application are flat objects whose properties are strings and
  integral numbers (job indices, sequence numbers, \<open>Date.now()\<close> readings).  A string is
  the list of the bytes of its UTF-8 form, so that \<open>TextEncoder.encode\<close> is the identity
  and every non-ASCII character is a run of bytes above \<open>0x7F\<close> that \<open>JSON.stringify\<close>
  copies unchanged.  An object is the list of its own properties in insertion order (no
  property name of an event is an array index, which JavaScript would list first).
\<close>

datatype jsval = Num int | Str string

type_synonym jsobject = "(string \<times> jsval) list"

definition hexdigit :: "nat \<Rightarrow> char" where
  "hexdigit d = (if d < 10 then char_of (48 + d) else char_of (87 + d))"

text \<open>\<open>QuoteJSONString\<close> of ECMAScript: the two-character escapes, \<open>\uXXXX\<close> with
  lowercase digits for the other control characters, every other character verbatim.\<close>

definition escape_char :: "char \<Rightarrow> string" where
  "escape_char c =
     (if c = CHR 0x08 then [CHR 0x5C, CHR ''b'']
      else if c = CHR 0x09 then [CHR 0x5C, CHR ''t'']
      else if c = CHR 0x0A then [CHR 0x5C, CHR ''n'']
      else if c = CHR 0x0C then [CHR 0x5C, CHR ''f'']
      else if c = CHR 0x0D then [CHR 0x5C, CHR ''r'']
      else if c = CHR 0x22 then [CHR 0x5C, CHR 0x22]
      else if c = CHR 0x5C then [CHR 0x5C, CHR 0x5C]
      else if (of_char c :: nat) < 32
        then [CHR 0x5C, CHR ''u'', CHR ''0'', CHR ''0'',
              hexdigit (of_char c div 16), hexdigit (of_char c mod 16)]
      else [c])"

definition QuoteJSONString :: "string \<Rightarrow> string" where
  "QuoteJSONString s = CHR 0x22 # concat (map escape_char s) @ [CHR 0x22]"

fun digits :: "nat \<Rightarrow> string" where
  "digits n = (if n < 10 then [char_of (48 + n)]
               else digits (n div 10) @ [char_of (48 + n mod 10)])"

declare digits.simps [simp del]

definition NumberToString :: "int \<Rightarrow> string" where
  "NumberToString i = (if i < 0 then CHR ''-'' # digits (nat (- i)) else digits (nat i))"

fun SerializeJSONProperty :: "jsval \<Rightarrow> string" where
  "SerializeJSONProperty (Num i) = NumberToString i"
| "SerializeJSONProperty (Str s) = QuoteJSONString s"

definition member_text :: "string \<times> jsval \<Rightarrow> string" where
  "member_text kv = QuoteJSONString (fst kv) @ '':'' @ SerializeJSONProperty (snd kv)"

fun join_comma :: "string list \<Rightarrow> string" where
  "join_comma [] = []"
| "join_comma [x] = x"
| "join_comma (x # y # ys) = x @ '','' @ join_comma (y # ys)"

definition JSON_stringify :: "jsobject \<Rightarrow> string" where
  "JSON_stringify obj = ''{'' @ join_comma (map member_text obj) @ ''}''"

section \<open>The values of a request body\<close>

text \<open>
  What \<open>req.json()\<close> can give, and \<open>undefined\<close> for a property that is not there.  A
  finite number is given by its value (\<open>-0\<close> is not told apart from \<open>0\<close>; both are falsy).
\<close>

datatype number = Finite rat | NaN | PosInfinity | NegInfinity

datatype jsvalue =
    Undefined
  | Null
  | Boolean bool
  | Number number
  | Text string
  | Array "jsvalue list"
  | Object "(string \<times> jsvalue) list"

section \<open>The event model (types/stream-events.ts)\<close>

text \<open>One constructor per interface; the arguments are the fields in the order of the
  object literals of the route: \<open>job\<close> first, \<open>timestamp\<close> last.\<close>

datatype StreamEvent =
    WebSearchSearchingEvent int string int int
  | WebSearchCompletedEvent int string int
  | ContentEvent int string int
  | TextDoneEvent int string int
  | JobDoneEvent int int
  | ErrorEvent int string int
  | CompleteEvent int

text \<open>The object literal the route builds for each event, with its property order.\<close>

fun object_of :: "StreamEvent \<Rightarrow> jsobject" where
  "object_of (WebSearchSearchingEvent job item_id sequence_number timestamp) =
     [(''type'', Str ''web_search_searching''), (''job'', Num job), (''item_id'', Str item_id),
      (''sequence_number'', Num sequence_number), (''timestamp'', Num timestamp)]"
| "object_of (WebSearchCompletedEvent job item_id timestamp) =
     [(''type'', Str ''web_search_completed''), (''job'', Num job), (''item_id'', Str item_id),
      (''timestamp'', Num timestamp)]"
| "object_of (ContentEvent job content timestamp) =
     [(''type'', Str ''content''), (''job'', Num job), (''content'', Str content),
      (''timestamp'', Num timestamp)]"
| "object_of (TextDoneEvent job item_id timestamp) =
     [(''type'', Str ''text_done''), (''job'', Num job), (''item_id'', Str item_id),
      (''timestamp'', Num timestamp)]"
| "object_of (JobDoneEvent job timestamp) =
     [(''type'', Str ''done''), (''job'', Num job), (''timestamp'', Num timestamp)]"
| "object_of (ErrorEvent job error timestamp) =
     [(''type'', Str ''error''), (''job'', Num job), (''error'', Str error),
      (''timestamp'', Num timestamp)]"
| "object_of (CompleteEvent timestamp) =
     [(''type'', Str ''complete''), (''timestamp'', Num timestamp)]"

text \<open>\<open>hasJobField\<close>: the test \<open>'job' in event\<close>.\<close>

definition hasJobField :: "jsobject \<Rightarrow> bool" where
  "hasJobField event = (map_of event ''job'' \<noteq> None)"

text \<open>One server-sent-events frame: \<open>`data: ${data}\n\n`\<close>.\<close>

definition sse_frame :: "string \<Rightarrow> string" where
  "sse_frame data = ''data: '' @ data @ [CHR 0x0A, CHR 0x0A]"

definition event_frame :: "StreamEvent \<Rightarrow> string" where
  "event_frame e = sse_frame (JSON_stringify (object_of e))"

section \<open>Promises and asynchronous generators\<close>

text \<open>What a \<open>catch\<close> receives: an \<open>Error\<close> with its message, or some other value.\<close>

datatype thrown = Error string | NonError

datatype 'a IteratorResult = Value 'a | Done

text \<open>A promise is modelled by the way it settles.\<close>

datatype 'a promise = Resolves 'a | Rejects thrown

fun then_promise :: "('a \<Rightarrow> 'b) \<Rightarrow> 'a promise \<Rightarrow> 'b promise" where
  "then_promise f (Resolves x) = Resolves (f x)"
| "then_promise f (Rejects t) = Rejects t"

text \<open>
  An asynchronous generator is the list of what its body still does: yield a value or
  throw.  \<open>next()\<close> answers with the head; a generator that has thrown or run off its end is
  completed and answers \<open>done\<close> from then on.  Requests are served in the order they are
  made, so the k-th call of \<open>next()\<close> receives the k-th step.
\<close>

datatype 'a gen_step = Yield 'a | Throw thrown

type_synonym 'a AsyncGenerator = "'a gen_step list"

fun gen_next :: "'a AsyncGenerator \<Rightarrow> 'a IteratorResult promise \<times> 'a AsyncGenerator" where
  "gen_next [] = (Resolves Done, [])"
| "gen_next (Yield v # g) = (Resolves (Value v), g)"
| "gen_next (Throw t # g) = (Rejects t, [])"

section \<open>runSingleDeepResearch (api/deep-research/route.ts)\<close>

text \<open>The events of the OpenAI response stream that the route looks at, by their
  \<open>type\<close>; every other type is \<open>other_event\<close>.\<close>

datatype ResponseStreamEvent =
    output_text_delta string
  | output_text_done string
  | web_search_call_searching string int
  | web_search_call_completed string
  | response_completed
  | response_failed
  | other_event

text \<open>
  The stream as the generator meets it: an event together with the reading of
  \<open>Date.now()\<close> taken while it is handled, or a failure of the request or of the
  iteration.  A stream whose \<open>create\<close> call rejects is \<open>[StreamThrows t]\<close>.
\<close>

datatype stream_step = Item ResponseStreamEvent int | StreamThrows thrown

type_synonym openai_stream = "stream_step list"

text \<open>The body of the \<open>for await\<close> loop: the chain of \<open>if\<close>s on \<open>event.type\<close>.\<close>

fun on_event :: "nat \<Rightarrow> ResponseStreamEvent \<Rightarrow> int \<Rightarrow> StreamEvent list" where
  "on_event jobId (output_text_delta delta) now = [ContentEvent (int jobId) delta now]"
| "on_event jobId (output_text_done item_id) now = [TextDoneEvent (int jobId) item_id now]"
| "on_event jobId (web_search_call_searching item_id sequence_number) now =
     [WebSearchSearchingEvent (int jobId) item_id sequence_number now]"
| "on_event jobId (web_search_call_completed item_id) now =
     [WebSearchCompletedEvent (int jobId) item_id now]"
| "on_event jobId response_completed now = [JobDoneEvent (int jobId) now]"
| "on_event jobId response_failed now = [ErrorEvent (int jobId) ''Response failed'' now]"
| "on_event jobId other_event now = []"

fun for_await :: "openai_stream \<Rightarrow> nat \<Rightarrow> StreamEvent AsyncGenerator" where
  "for_await [] jobId = []"
| "for_await (Item event now # stream) jobId =
     map Yield (on_event jobId event now) @ for_await stream jobId"
| "for_await (StreamThrows t # stream) jobId = [Throw t]"

text \<open>\<open>openai\<close> is the client: \<open>openai k input\<close> is the stream it answers its k-th
  request with, whose input is \<open>input\<close>.  Within one POST the k-th request is made by the
  generator of job k.  The query is declared a string, but it is whatever the request
  body held, so it is a value of any kind.\<close>

definition runSingleDeepResearch ::
  "(nat \<Rightarrow> jsvalue \<Rightarrow> openai_stream) \<Rightarrow> jsvalue \<Rightarrow> nat \<Rightarrow> StreamEvent AsyncGenerator" where
  "runSingleDeepResearch openai query jobId = for_await (openai jobId query) jobId"

section \<open>The response stream\<close>

text \<open>
  What the \<open>start\<close> callback does, in order: a call of \<open>next()\<close> on a generator, the
  result \<open>{gen, result}\<close> that \<open>Promise.race\<close> hands to the loop, a frame accepted by
  \<open>controller.enqueue\<close>, a call of \<open>controller.enqueue\<close> that throws,
  \<open>pendingPromises.delete\<close>, \<open>controller.close\<close>, a call of \<open>controller.close\<close> that throws.
\<close>

datatype action =
    Next nat
  | Received nat "StreamEvent IteratorResult"
  | Enqueue string
  | EnqueueThrows
  | Delete nat
  | Close
  | CloseThrows

text \<open>
  The consumer may cancel the stream at any time (the client goes away).  On a cancelled
  stream \<open>controller.enqueue\<close> and \<open>controller.close\<close> throw a \<open>TypeError\<close>; its message is
  the runtime's, here that of Node.  \<open>cancel = Some n\<close>: the consumer cancels when \<open>n\<close> more
  calls of the controller have gone through; \<open>cancel = None\<close>: it never does.  \<open>caught\<close> is
  what has been thrown and not handled yet.  \<open>schedule\<close> is the environment of the races:
  its head says which of the pending promises settles first in the coming race (as a
  position among them, modulo their number; the first one once the schedule is used up).
\<close>

definition InvalidState :: thrown where
  "InvalidState = Error ''Invalid state: Controller is already closed''"

record run_state =
  trace :: "action list"
  cancel :: "nat option"
  caught :: "thrown option"
  schedule :: "nat list"

definition controller_enqueue :: "string \<Rightarrow> 'a run_state_scheme \<Rightarrow> 'a run_state_scheme" where
  "controller_enqueue chunk s =
     (if cancel s = Some 0
      then s\<lparr>trace := trace s @ [EnqueueThrows], caught := Some InvalidState\<rparr>
      else s\<lparr>trace := trace s @ [Enqueue chunk], cancel := map_option (\<lambda>n. n - 1) (cancel s)\<rparr>)"

definition controller_close :: "'a run_state_scheme \<Rightarrow> 'a run_state_scheme" where
  "controller_close s =
     (if cancel s = Some 0
      then s\<lparr>trace := trace s @ [CloseThrows], caught := Some InvalidState\<rparr>
      else s\<lparr>trace := trace s @ [Close]\<rparr>)"

definition error_message :: "thrown \<Rightarrow> string" where
  "error_message t = (case t of Error m \<Rightarrow> m | NonError \<Rightarrow> ''Unknown error'')"

definition error_frame :: "thrown \<Rightarrow> string" where
  "error_frame t =
     sse_frame (JSON_stringify [(''type'', Str ''error''), (''error'', Str (error_message t))])"

text \<open>The end of the \<open>try\<close> block, reached when nothing was thrown before: the last frame
  is enqueued, then the stream is closed.\<close>

definition try_end :: "string \<Rightarrow> 'a run_state_scheme \<Rightarrow> 'a run_state_scheme" where
  "try_end frame s =
     (if caught s \<noteq> None then s
      else (let s' = controller_enqueue frame s
            in if caught s' \<noteq> None then s' else controller_close s'))"

text \<open>The \<open>catch\<close> block.  What it throws itself is not handled: the promise of \<open>start\<close>
  is rejected with it.\<close>

definition catch_block :: "'a run_state_scheme \<Rightarrow> 'a run_state_scheme" where
  "catch_block s =
     (case caught s of
        None \<Rightarrow> s
      | Some error \<Rightarrow>
          (let s' = controller_enqueue (error_frame error) (s\<lparr>caught := None\<rparr>)
           in if caught s' \<noteq> None then s' else controller_close s'))"

text \<open>The frames on the response stream, in order.\<close>

fun enqueued :: "action list \<Rightarrow> string list" where
  "enqueued [] = []"
| "enqueued (Enqueue f # as) = f # enqueued as"
| "enqueued (a # as) = enqueued as"

section \<open>The merge loop of POST (api/deep-research/route.ts)\<close>

text \<open>
  A generator is named by its index in \<open>generators\<close>.  \<open>pendingPromises\<close> is the \<open>Map\<close>,
  in insertion order.
\<close>

record loop_state = run_state +
  generators :: "StreamEvent AsyncGenerator list"
  pendingPromises :: "(nat \<times> (nat \<times> StreamEvent IteratorResult) promise) list"

text \<open>\<open>pendingPromises.set(gen, gen.next().then(result => ({ gen, result })))\<close>\<close>

definition issue_next :: "nat \<Rightarrow> loop_state \<Rightarrow> loop_state" where
  "issue_next gen s =
     (let (p, g) = gen_next (generators s ! gen)
      in s\<lparr>generators := (generators s)[gen := g],
           pendingPromises :=
             AList.update gen (then_promise (\<lambda>result. (gen, result)) p) (pendingPromises s),
           trace := trace s @ [Next gen]\<rparr>)"

definition race_winner :: "nat list \<Rightarrow> 'a list \<Rightarrow> 'a" where
  "race_winner sched promises =
     promises ! (case sched of [] \<Rightarrow> 0 | c # _ \<Rightarrow> c mod length promises)"

text \<open>One iteration of \<open>while (pendingPromises.size > 0)\<close>.  A rejected race, and a call
  of \<open>controller.enqueue\<close> that throws, leave the loop for the \<open>catch\<close> block.\<close>

definition loop_body :: "loop_state \<Rightarrow> loop_state" where
  "loop_body s =
     (case race_winner (schedule s) (map snd (pendingPromises s)) of
        Rejects t \<Rightarrow> s\<lparr>caught := Some t, schedule := tl (schedule s)\<rparr>
      | Resolves (gen, result) \<Rightarrow>
          (case result of
             Done \<Rightarrow>
               s\<lparr>pendingPromises := AList.delete gen (pendingPromises s),
                 trace := trace s @ [Received gen Done, Delete gen],
                 schedule := tl (schedule s)\<rparr>
           | Value v \<Rightarrow>
               (let s' = controller_enqueue (event_frame v)
                           (s\<lparr>trace := trace s @ [Received gen (Value v)],
                              schedule := tl (schedule s)\<rparr>)
                in if caught s' \<noteq> None then s' else issue_next gen s')))"

definition loop_cond :: "loop_state \<Rightarrow> bool" where
  "loop_cond s = (pendingPromises s \<noteq> [] \<and> caught s = None)"

definition while_loop :: "loop_state \<Rightarrow> loop_state option" where
  "while_loop s = while_option loop_cond loop_body s"

text \<open>The \<open>for (const gen of generators)\<close> loop that issues the first requests.\<close>

definition initial_state ::
  "StreamEvent AsyncGenerator list \<Rightarrow> nat list \<Rightarrow> nat option \<Rightarrow> loop_state" where
  "initial_state gens sched c =
     fold issue_next [0..<length gens]
       \<lparr>trace = [], cancel = c, caught = None, schedule = sched,
        generators = gens, pendingPromises = []\<rparr>"

text \<open>
  The \<open>start\<close> callback of the stream: the requests, the loop, then the \<open>complete\<close> frame
  and \<open>close\<close>, and the \<open>catch\<close> block for what was thrown on the way.  \<open>now\<close> is the
  reading of \<open>Date.now()\<close> for the \<open>complete\<close> event.  The result is everything the callback
  did; \<open>None\<close> would be a loop that never ends.
\<close>

definition start ::
  "StreamEvent AsyncGenerator list \<Rightarrow> nat list \<Rightarrow> nat option \<Rightarrow> int \<Rightarrow> action list option" where
  "start gens sched c now =
     (case while_loop (initial_state gens sched c) of
        None \<Rightarrow> None
      | Some s \<Rightarrow> Some (trace (catch_block (try_end (event_frame (CompleteEvent now)) s))))"

section \<open>POST\<close>

text \<open>
  \<open>body.queries\<close> and \<open>body.query\<close>: reading a property of \<open>null\<close> or \<open>undefined\<close> throws a
  \<open>TypeError\<close> (the message is that of Node); an object gives the value of its member of
  that name, or \<open>undefined\<close>; a boolean, a number, a string and an array have no property
  of either name.
\<close>

definition property :: "jsvalue \<Rightarrow> string \<Rightarrow> thrown + jsvalue" where
  "property v name =
     (case v of
        Undefined \<Rightarrow>
          Inl (Error (''Cannot read properties of undefined (reading '' @ [CHR 0x27] @ name @
                      [CHR 0x27] @ '')''))
      | Null \<Rightarrow>
          Inl (Error (''Cannot read properties of null (reading '' @ [CHR 0x27] @ name @
                      [CHR 0x27] @ '')''))
      | Object members \<Rightarrow> Inr (case map_of members name of None \<Rightarrow> Undefined | Some x \<Rightarrow> x)
      | _ \<Rightarrow> Inr Undefined)"

text \<open>\<open>Array.isArray(body.queries) ? body.queries : [body.query]\<close>\<close>

definition derived_queries :: "jsvalue \<Rightarrow> thrown + jsvalue list" where
  "derived_queries body =
     (case property body ''queries'' of
        Inl error \<Rightarrow> Inl error
      | Inr qs \<Rightarrow>
          (case qs of
             Array elements \<Rightarrow> Inr elements
           | _ \<Rightarrow> (case property body ''query'' of
                     Inl error \<Rightarrow> Inl error
                   | Inr q \<Rightarrow> Inr [q])))"

text \<open>\<open>!q\<close>\<close>

fun falsy :: "jsvalue \<Rightarrow> bool" where
  "falsy Undefined = True"
| "falsy Null = True"
| "falsy (Boolean b) = (\<not> b)"
| "falsy (Number x) = (x = Finite 0 \<or> x = NaN)"
| "falsy (Text t) = (t = [])"
| "falsy (Array elements) = False"
| "falsy (Object members) = False"

datatype Response =
    JsonResponse nat string
  | StreamResponse "action list option"

definition make_generators ::
  "(nat \<Rightarrow> jsvalue \<Rightarrow> openai_stream) \<Rightarrow> jsvalue list \<Rightarrow> StreamEvent AsyncGenerator list" where
  "make_generators openai qs =
     map (\<lambda>(index, query). runSingleDeepResearch openai query index) (enumerate 0 qs)"

text \<open>
  \<open>req_json\<close> is the way \<open>req.json()\<close> settles: with the value of the body, or rejected when
  the body is not JSON.  What is thrown before the stream exists is answered by the outer
  \<open>catch\<close> with status 500.
\<close>

definition POST ::
  "jsvalue promise \<Rightarrow> (nat \<Rightarrow> jsvalue \<Rightarrow> openai_stream) \<Rightarrow> nat list \<Rightarrow> nat option \<Rightarrow> int \<Rightarrow>
   Response" where
  "POST req_json openai sched c now =
     (case req_json of
        Rejects error \<Rightarrow>
          JsonResponse 500 (JSON_stringify [(''error'', Str (error_message error))])
      | Resolves body \<Rightarrow>
          (case derived_queries body of
             Inl error \<Rightarrow>
               JsonResponse 500 (JSON_stringify [(''error'', Str (error_message error))])
           | Inr qs \<Rightarrow>
               if qs = [] \<or> list_ex falsy qs
               then JsonResponse 400
                      (JSON_stringify [(''error'', Str ''Query or queries required'')])
               else StreamResponse (start (make_generators openai qs) sched c now)))"

section \<open>The first version of the merge loop\<close>

text \<open>
  The earlier route keeps a \<open>Set\<close> of active generators and, on every iteration, calls
  \<open>next()\<close> on each of them and races the fresh promises.  Only the winner's result is
  looked at; the other promises of that iteration are never read again.
\<close>

record naive_state = run_state +
  n_generators :: "StreamEvent AsyncGenerator list"
  activeGenerators :: "nat list"

definition naive_body :: "naive_state \<Rightarrow> naive_state" where
  "naive_body s =
     (let polled = map (\<lambda>gen. (gen, gen_next (n_generators s ! gen))) (activeGenerators s);
          promises = map (\<lambda>(gen, (p, g)). then_promise (\<lambda>result. (gen, result)) p) polled;
          s' = s\<lparr>n_generators := fold (\<lambda>(gen, (p, g)) gs. gs[gen := g]) polled (n_generators s),
                 trace := trace s @ map Next (activeGenerators s),
                 schedule := tl (schedule s)\<rparr>
      in case race_winner (schedule s) promises of
           Rejects t \<Rightarrow> s'\<lparr>caught := Some t\<rparr>
         | Resolves (gen, result) \<Rightarrow>
             (case result of
                Done \<Rightarrow>
                  s'\<lparr>activeGenerators := removeAll gen (activeGenerators s),
                     trace := trace s' @ [Received gen Done, Delete gen]\<rparr>
              | Value v \<Rightarrow>
                  controller_enqueue (event_frame v)
                    (s'\<lparr>trace := trace s' @ [Received gen (Value v)]\<rparr>)))"

definition naive_cond :: "naive_state \<Rightarrow> bool" where
  "naive_cond s = (activeGenerators s \<noteq> [] \<and> caught s = None)"

definition naive_start ::
  "StreamEvent AsyncGenerator list \<Rightarrow> nat list \<Rightarrow> nat option \<Rightarrow> action list option" where
  "naive_start gens sched c =
     (case while_option naive_cond naive_body
             \<lparr>trace = [], cancel = c, caught = None, schedule = sched,
              n_generators = gens, activeGenerators = [0..<length gens]\<rparr> of
        None \<Rightarrow> None
      | Some s \<Rightarrow>
          Some (trace (catch_block
                  (try_end (sse_frame (JSON_stringify [(''type'', Str ''complete'')])) s))))"

section \<open>JSON.parse\<close>

text \<open>
  The parser for the JSON texts of this application: an object whose members are strings
  and integers, or one such value alone, with the white space JSON allows between
  tokens.  \<open>None\<close> is the \<open>SyntaxError\<close>.  Outside the model, and answered \<open>None\<close> too:
  nested values, \<open>true\<close>, \<open>false\<close>, \<open>null\<close>, fractions and exponents, and \<open>\uXXXX\<close>
  above \<open>0x7F\<close>; \<open>JSON.stringify\<close> writes none of them for an event.
\<close>

datatype json = JsonValue jsval | JsonObject jsobject

definition is_ws :: "char \<Rightarrow> bool" where
  "is_ws c \<longleftrightarrow> c = CHR 0x20 \<or> c = CHR 0x09 \<or> c = CHR 0x0A \<or> c = CHR 0x0D"

definition skip_ws :: "string \<Rightarrow> string" where
  "skip_ws s = dropWhile is_ws s"

definition unhex :: "char \<Rightarrow> nat option" where
  "unhex c =
     (let n = (of_char c :: nat)
      in if 48 \<le> n \<and> n \<le> 57 then Some (n - 48)
         else if 97 \<le> n \<and> n \<le> 102 then Some (n - 87)
         else if 65 \<le> n \<and> n \<le> 70 then Some (n - 55)
         else None)"

definition unescape :: "char \<Rightarrow> char option" where
  "unescape e =
     (if e = CHR 0x22 then Some (CHR 0x22)
      else if e = CHR 0x5C then Some (CHR 0x5C)
      else if e = CHR ''/'' then Some (CHR ''/'')
      else if e = CHR ''b'' then Some (CHR 0x08)
      else if e = CHR ''f'' then Some (CHR 0x0C)
      else if e = CHR ''n'' then Some (CHR 0x0A)
      else if e = CHR ''r'' then Some (CHR 0x0D)
      else if e = CHR ''t'' then Some (CHR 0x09)
      else None)"

definition unicode_escape :: "string \<Rightarrow> char option" where
  "unicode_escape ds =
     (case map unhex ds of
        [Some a, Some b, Some c, Some d] \<Rightarrow>
          (let code = ((a * 16 + b) * 16 + c) * 16 + d
           in if code < 128 then Some (char_of code) else None)
      | _ \<Rightarrow> None)"

text \<open>The characters of a string literal after its opening quote, and the rest of the
  text after the closing quote.\<close>

fun parse_chars :: "string \<Rightarrow> (string \<times> string) option" where
  "parse_chars [] = None"
| "parse_chars (c # cs) =
     (if c = CHR 0x22 then Some ([], cs)
      else if c = CHR 0x5C then
        (case cs of
           [] \<Rightarrow> None
         | e # es \<Rightarrow>
             if e = CHR ''u'' then
               (case unicode_escape (take 4 es) of
                  None \<Rightarrow> None
                | Some x \<Rightarrow> map_option (\<lambda>(str, rest). (x # str, rest)) (parse_chars (drop 4 es)))
             else
               (case unescape e of
                  None \<Rightarrow> None
                | Some x \<Rightarrow> map_option (\<lambda>(str, rest). (x # str, rest)) (parse_chars es)))
      else if (of_char c :: nat) < 32 then None
      else map_option (\<lambda>(str, rest). (c # str, rest)) (parse_chars cs))"

definition is_digit :: "char \<Rightarrow> bool" where
  "is_digit c \<longleftrightarrow> 48 \<le> (of_char c :: nat) \<and> (of_char c :: nat) \<le> 57"

definition digit_value :: "char \<Rightarrow> nat" where
  "digit_value c = of_char c - 48"

definition parse_nat :: "string \<Rightarrow> (nat \<times> string) option" where
  "parse_nat s =
     (let ds = takeWhile is_digit s; rest = dropWhile is_digit s
      in if ds = [] then None
         else if hd ds = CHR ''0'' \<and> tl ds \<noteq> [] then None
         else if rest \<noteq> [] \<and> hd rest \<in> {CHR ''.'', CHR ''e'', CHR ''E''} then None
         else Some (foldl (\<lambda>a d. 10 * a + digit_value d) 0 ds, rest))"

definition parse_number :: "string \<Rightarrow> (int \<times> string) option" where
  "parse_number s =
     (case s of
        [] \<Rightarrow> None
      | c # cs \<Rightarrow>
          if c = CHR ''-'' then map_option (\<lambda>(n, rest). (- int n, rest)) (parse_nat cs)
          else map_option (\<lambda>(n, rest). (int n, rest)) (parse_nat s))"

definition parse_value :: "string \<Rightarrow> (jsval \<times> string) option" where
  "parse_value s =
     (case s of
        [] \<Rightarrow> None
      | c # cs \<Rightarrow>
          if c = CHR 0x22 then map_option (\<lambda>(str, rest). (Str str, rest)) (parse_chars cs)
          else map_option (\<lambda>(i, rest). (Num i, rest)) (parse_number s))"

definition parse_member :: "string \<Rightarrow> ((string \<times> jsval) \<times> string) option" where
  "parse_member s =
     (case s of
        [] \<Rightarrow> None
      | c # cs \<Rightarrow>
          if c \<noteq> CHR 0x22 then None
          else (case parse_chars cs of
                  None \<Rightarrow> None
                | Some (k, r) \<Rightarrow>
                    (case skip_ws r of
                       [] \<Rightarrow> None
                     | c' # r' \<Rightarrow>
                         if c' \<noteq> CHR '':'' then None
                         else (case parse_value (skip_ws r') of
                                 None \<Rightarrow> None
                               | Some (v, r'') \<Rightarrow> Some ((k, v), r'')))))"

text \<open>The members of an object after its opening brace, up to the closing brace.  The
  first argument bounds the number of members; \<open>JSON_parse\<close> passes the length of the
  text, which no text can reach.\<close>

fun parse_members :: "nat \<Rightarrow> string \<Rightarrow> (jsobject \<times> string) option" where
  "parse_members 0 s = None"
| "parse_members (Suc n) s =
     (case parse_member s of
        None \<Rightarrow> None
      | Some (kv, r) \<Rightarrow>
          (case skip_ws r of
             [] \<Rightarrow> None
           | c # r' \<Rightarrow>
               if c = CHR '','' then
                 (case parse_members n (skip_ws r') of
                    None \<Rightarrow> None
                  | Some (kvs, r'') \<Rightarrow> Some (kv # kvs, r''))
               else if c = CHR ''}'' then Some ([kv], r')
               else None))"

text \<open>Members are defined on the new object one after the other: a repeated key keeps
  its first place and takes the last value.\<close>

definition define_properties :: "jsobject \<Rightarrow> jsobject" where
  "define_properties kvs = foldl (\<lambda>obj kv. AList.update (fst kv) (snd kv) obj) [] kvs"

definition JSON_parse :: "string \<Rightarrow> json option" where
  "JSON_parse text =
     (case skip_ws text of
        [] \<Rightarrow> None
      | c # cs \<Rightarrow>
          if c = CHR ''{'' then
            (case skip_ws cs of
               [] \<Rightarrow> None
             | c' # cs' \<Rightarrow>
                 if c' = CHR ''}'' then (if skip_ws cs' = [] then Some (JsonObject []) else None)
                 else (case parse_members (length text) (skip_ws cs) of
                         None \<Rightarrow> None
                       | Some (kvs, r) \<Rightarrow>
                           if skip_ws r = [] then Some (JsonObject (define_properties kvs))
                           else None))
          else (case parse_value (c # cs) of
                  None \<Rightarrow> None
                | Some (v, r) \<Rightarrow> if skip_ws r = [] then Some (JsonValue v) else None))"

section \<open>The consumer: startAllResearch (components/research-stream.tsx)\<close>

datatype Status = status_idle | status_searching | status_streaming | status_done | status_error

record ResearchJob =
  job_id :: nat
  job_query :: string
  content :: string
  status :: Status
  searchCount :: nat

text \<open>\<open>received\<close> is the list of the events that \<open>JSON.parse\<close> returned, in order (the
  console line \<open>Received event:\<close>).\<close>

record consumer_state =
  jobs :: "ResearchJob list"
  received :: "json list"

text \<open>\<open>chunk.split('\n')\<close>\<close>

fun split_newline :: "string \<Rightarrow> string list" where
  "split_newline [] = [[]]"
| "split_newline (c # cs) =
     (if c = CHR 0x0A then [] # split_newline cs
      else (case split_newline cs of [] \<Rightarrow> [[c]] | l # ls \<Rightarrow> (c # l) # ls))"

definition startsWith :: "string \<Rightarrow> string \<Rightarrow> bool" where
  "startsWith line p \<longleftrightarrow> take (length p) line = p"

text \<open>\<open>event.content || ''\<close> appended to a string.\<close>

definition content_text :: "jsobject \<Rightarrow> string" where
  "content_text event =
     (case map_of event ''content'' of
        None \<Rightarrow> []
      | Some (Str c) \<Rightarrow> c
      | Some (Num n) \<Rightarrow> if n = 0 then [] else NumberToString n)"

text \<open>The function given to \<open>prev.map\<close> in \<open>setJobs\<close>.\<close>

definition update_job :: "jsobject \<Rightarrow> ResearchJob \<Rightarrow> ResearchJob" where
  "update_job event job =
     (if map_of event ''job'' \<noteq> Some (Num (int (job_id job))) then job
      else if map_of event ''type'' = Some (Str ''web_search_searching'')
        then job\<lparr>status := status_searching, searchCount := searchCount job + 1\<rparr>
      else if map_of event ''type'' = Some (Str ''web_search_completed'') then job
      else if map_of event ''type'' = Some (Str ''content'')
        then job\<lparr>content := content job @ content_text event, status := status_streaming\<rparr>
      else if map_of event ''type'' = Some (Str ''text_done'') then job
      else if map_of event ''type'' = Some (Str ''done'') then job\<lparr>status := status_done\<rparr>
      else if map_of event ''type'' = Some (Str ''error'') then job\<lparr>status := status_error\<rparr>
      else job)"

text \<open>What the \<open>try\<close> block does with the value \<open>JSON.parse\<close> returned.  A value that
  is not an object has no \<open>type\<close>, and \<open>'job' in event\<close> throws on it, into the \<open>catch\<close>.\<close>

definition dispatch :: "json \<Rightarrow> consumer_state \<Rightarrow> consumer_state" where
  "dispatch event st =
     (let st' = st\<lparr>received := received st @ [event]\<rparr>
      in case event of
           JsonValue v \<Rightarrow> st'
         | JsonObject obj \<Rightarrow>
             if map_of obj ''type'' = Some (Str ''complete'') then st'
             else if \<not> hasJobField obj then st'
             else st'\<lparr>jobs := map (update_job obj) (jobs st')\<rparr>)"

text \<open>The body of \<open>for (const line of lines)\<close>.\<close>

definition on_line :: "string \<Rightarrow> consumer_state \<Rightarrow> consumer_state" where
  "on_line line st =
     (if startsWith line ''data: '' then
        (let data = drop 6 line
         in if data = ''[DONE]'' then st
            else (case JSON_parse data of
                    None \<Rightarrow> st
                  | Some event \<Rightarrow> dispatch event st))
      else st)"

text \<open>One turn of \<open>while (true)\<close>: a chunk is decoded and split on its own, and nothing
  is kept from one chunk to the next.  A chunk is the list of its bytes, and
  \<open>decoder.decode\<close> is the identity, as it is on every chunk that ends between two
  characters.\<close>

definition on_chunk :: "string \<Rightarrow> consumer_state \<Rightarrow> consumer_state" where
  "on_chunk chunk st = fold on_line (split_newline chunk) st"

definition read_loop :: "string list \<Rightarrow> consumer_state \<Rightarrow> consumer_state" where
  "read_loop chunks st = fold on_chunk chunks st"

section \<open>Notions used in the statements and proofs\<close>

text \<open>
  What a generator does when it is run alone to its end: \<open>cut\<close> is its behaviour up to
  its first throw, \<open>yielded\<close> the values it yields, \<open>throws\<close> what it throws, if it does.
  \<open>received_values\<close> reads from a trace the results with a value that the race handed to
  the loop, each with its generator; \<open>forwarded i\<close> keeps those of generator \<open>i\<close>.
  \<open>nexts i\<close> and \<open>answers i\<close> count the requests made to generator \<open>i\<close> and the results
  received from it.  \<open>loop_trace\<close> recognises a sequence of whole loop iterations.
\<close>

fun cut :: "'a AsyncGenerator \<Rightarrow> 'a AsyncGenerator" where
  "cut [] = []"
| "cut (Yield v # g) = Yield v # cut g"
| "cut (Throw t # g) = [Throw t]"

fun yielded :: "'a AsyncGenerator \<Rightarrow> 'a list" where
  "yielded [] = []"
| "yielded (Yield v # g) = v # yielded g"
| "yielded (Throw t # g) = []"

fun throws :: "'a AsyncGenerator \<Rightarrow> thrown option" where
  "throws [] = None"
| "throws (Yield v # g) = throws g"
| "throws (Throw t # g) = Some t"

fun received_values :: "action list \<Rightarrow> (nat \<times> StreamEvent) list" where
  "received_values [] = []"
| "received_values (Received g (Value v) # as) = (g, v) # received_values as"
| "received_values (a # as) = received_values as"

definition forwarded :: "nat \<Rightarrow> action list \<Rightarrow> StreamEvent list" where
  "forwarded i tr = map snd (filter (\<lambda>p. fst p = i) (received_values tr))"

fun pending_steps ::
  "(nat \<times> 'a IteratorResult) promise option \<Rightarrow> 'a AsyncGenerator \<Rightarrow> 'a AsyncGenerator" where
  "pending_steps None g = []"
| "pending_steps (Some (Rejects t)) g = [Throw t]"
| "pending_steps (Some (Resolves (k, Done))) g = []"
| "pending_steps (Some (Resolves (k, Value v))) g = Yield v # cut g"

definition keys :: "loop_state \<Rightarrow> nat list" where
  "keys s = map fst (pendingPromises s)"

definition shape :: "nat \<Rightarrow> loop_state \<Rightarrow> bool" where
  "shape n s \<longleftrightarrow>
     length (generators s) = n \<and> distinct (keys s) \<and>
     (\<forall>(i, p) \<in> set (pendingPromises s). i < n \<and> (\<forall>g r. p = Resolves (g, r) \<longrightarrow> g = i))"

definition conserved :: "StreamEvent AsyncGenerator list \<Rightarrow> loop_state \<Rightarrow> bool" where
  "conserved G s \<longleftrightarrow>
     (\<forall>i < length G. cut (G ! i) =
        map Yield (forwarded i (trace s)) @
        pending_steps (map_of (pendingPromises s) i) (generators s ! i))"

fun loop_trace :: "action list \<Rightarrow> bool" where
  "loop_trace [] = True"
| "loop_trace (Received g Done # Delete g' # as) = (g' = g \<and> loop_trace as)"
| "loop_trace (Received g (Value v) # Enqueue f # Next g' # as) =
     (f = event_frame v \<and> g' = g \<and> loop_trace as)"
| "loop_trace _ = False"

fun nexts :: "nat \<Rightarrow> action list \<Rightarrow> nat" where
  "nexts i [] = 0"
| "nexts i (Next g # as) = (if g = i then Suc (nexts i as) else nexts i as)"
| "nexts i (a # as) = nexts i as"

fun answers :: "nat \<Rightarrow> action list \<Rightarrow> nat" where
  "answers i [] = 0"
| "answers i (Received g r # as) = (if g = i then Suc (answers i as) else answers i as)"
| "answers i (a # as) = answers i as"

definition trace_ok :: "nat \<Rightarrow> loop_state \<Rightarrow> bool" where
  "trace_ok n s \<longleftrightarrow> (\<exists>body. trace s = map Next [0..<n] @ body \<and> loop_trace body)"

definition counts_ok :: "nat \<Rightarrow> loop_state \<Rightarrow> bool" where
  "counts_ok n s \<longleftrightarrow>
     (\<forall>i<n. nexts i (trace s) = answers i (trace s) + (if i \<in> set (keys s) then 1 else 0)) \<and>
     (\<forall>i<n. i \<in> set (keys s) \<longleftrightarrow> Received i Done \<notin> set (trace s))"

definition first_promise :: "StreamEvent AsyncGenerator list \<Rightarrow> nat \<Rightarrow> nat \<times> (nat \<times> StreamEvent IteratorResult) promise" where
  "first_promise gens i = (i, then_promise (\<lambda>r. (i, r)) (fst (gen_next (gens ! i))))"

definition caught_ok :: "StreamEvent AsyncGenerator list \<Rightarrow> loop_state \<Rightarrow> bool" where
  "caught_ok G s \<longleftrightarrow> (\<forall>t. caught s = Some t \<longrightarrow> (\<exists>i<length G. throws (G ! i) = Some t))"

definition Inv :: "StreamEvent AsyncGenerator list \<Rightarrow> loop_state \<Rightarrow> bool" where
  "Inv G s \<longleftrightarrow> shape (length G) s \<and> conserved G s \<and> trace_ok (length G) s \<and>
               counts_ok (length G) s \<and> caught_ok G s"

fun weight :: "(nat \<times> 'a IteratorResult) promise option \<Rightarrow> 'a AsyncGenerator \<Rightarrow> nat" where
  "weight None g = 0"
| "weight (Some (Rejects t)) g = 1"
| "weight (Some (Resolves (k, Done))) g = 1"
| "weight (Some (Resolves (k, Value v))) g = 2 + length g"

definition remaining :: "nat \<Rightarrow> loop_state \<Rightarrow> nat" where
  "remaining n s =
     (\<Sum>i<n. weight (map_of (pendingPromises s) i) (generators s ! i)) +
     (if caught s = None then 1 else 0)"

definition number_end :: "string \<Rightarrow> bool" where
  "number_end rest \<longleftrightarrow>
     rest = [] \<or> (\<not> is_digit (hd rest) \<and> hd rest \<notin> {CHR ''.'', CHR ''e'', CHR ''E''})"

definition member_end :: "string \<Rightarrow> bool" where
  "member_end rest \<longleftrightarrow> (\<exists>r. rest = CHR '','' # r \<or> rest = CHR ''}'' # r)"

text \<open>The state after any number of turns of the loop: a turn of a loop that has ended
  changes nothing.\<close>

definition loop_step :: "loop_state \<Rightarrow> loop_state" where
  "loop_step s = (if loop_cond s then loop_body s else s)"

definition sources_ok :: "nat \<Rightarrow> loop_state \<Rightarrow> bool" where
  "sources_ok n s \<longleftrightarrow> (\<forall>p \<in> set (received_values (trace s)). fst p < n)"

text \<open>The state of the loop after \<open>k\<close> turns.\<close>

definition state_after ::
  "StreamEvent AsyncGenerator list \<Rightarrow> nat list \<Rightarrow> nat option \<Rightarrow> nat \<Rightarrow> loop_state" where
  "state_after gens sched c k = (loop_step ^^ k) (initial_state gens sched c)"

text \<open>
  \<open>stays_open c k\<close>: the consumer has not cancelled the stream when the controller is
  called for the \<open>k\<close>-th time.  \<open>events_in gens\<close> is the number of events the generators
  yield when each is run to its end.  \<open>enqueue_throws s\<close>: the coming turn of the loop
  receives a value and cannot enqueue its frame.  \<open>budget_ok c s\<close> relates what the
  consumer still lets through to the frames enqueued so far, \<open>c\<close> being what it let
  through at the beginning.
\<close>

definition stays_open :: "nat option \<Rightarrow> nat \<Rightarrow> bool" where
  "stays_open c k = (case c of None \<Rightarrow> True | Some n \<Rightarrow> k \<le> n)"

definition events_in :: "'a AsyncGenerator list \<Rightarrow> nat" where
  "events_in gens = sum_list (map (\<lambda>g. length (yielded g)) gens)"

definition enqueue_throws :: "loop_state \<Rightarrow> bool" where
  "enqueue_throws s \<longleftrightarrow>
     cancel s = Some 0 \<and>
     (case race_winner (schedule s) (map snd (pendingPromises s)) of
        Rejects t \<Rightarrow> False
      | Resolves (gen, result) \<Rightarrow> (case result of Done \<Rightarrow> False | Value v \<Rightarrow> True))"

definition budget_ok :: "nat option \<Rightarrow> loop_state \<Rightarrow> bool" where
  "budget_ok c s \<longleftrightarrow>
     (case c of
        None \<Rightarrow> cancel s = None
      | Some n \<Rightarrow> length (enqueued (trace s)) \<le> n \<and>
                  cancel s = Some (n - length (enqueued (trace s))))"

text \<open>The state a loop is left in when \<open>controller.enqueue\<close> throws: the turn is broken
  off after the result was received.\<close>

definition broken :: "StreamEvent AsyncGenerator list \<Rightarrow> nat option \<Rightarrow> loop_state \<Rightarrow> bool" where
  "broken G c s \<longleftrightarrow>
     (\<exists>s0 g v. Inv G s0 \<and> sources_ok (length G) s0 \<and> budget_ok c s0 \<and> caught s0 = None \<and>
        (g, Resolves (g, Value v)) \<in> set (pendingPromises s0) \<and> cancel s0 = Some 0 \<and>
        s = s0\<lparr>trace := trace s0 @ [Received g (Value v), EnqueueThrows],
               caught := Some InvalidState, schedule := tl (schedule s0)\<rparr>)"

definition run_ok :: "StreamEvent AsyncGenerator list \<Rightarrow> nat option \<Rightarrow> loop_state \<Rightarrow> bool" where
  "run_ok G c s \<longleftrightarrow> (Inv G s \<and> sources_ok (length G) s \<and> budget_ok c s) \<or> broken G c s"

text \<open>\<open>answered tr\<close>: in the trace, every value the loop receives is followed by the
  frame of that value and a request to the same generator, or by a call of
  \<open>controller.enqueue\<close> that throws.\<close>

definition follows :: "nat \<Rightarrow> StreamEvent \<Rightarrow> action list \<Rightarrow> bool" where
  "follows i v as \<longleftrightarrow>
     take 2 as = [Enqueue (event_frame v), Next i] \<or> take 1 as = [EnqueueThrows]"

fun answered :: "action list \<Rightarrow> bool" where
  "answered [] = True"
| "answered (Received i (Value v) # as) = (follows i v as \<and> answered as)"
| "answered (a # as) = answered as"

text \<open>The derived query list in the words of the request contract: \<open>body.queries\<close>
  when it is an array, otherwise the one-element list \<open>[body.query]\<close>, a member that is
  not there being \<open>undefined\<close>.\<close>

definition member :: "jsvalue \<Rightarrow> string \<Rightarrow> jsvalue" where
  "member body name =
     (case body of
        Object members \<Rightarrow> (case map_of members name of None \<Rightarrow> Undefined | Some x \<Rightarrow> x)
      | _ \<Rightarrow> Undefined)"

definition query_list :: "jsvalue \<Rightarrow> jsvalue list" where
  "query_list body =
     (case member body ''queries'' of Array elements \<Rightarrow> elements | _ \<Rightarrow> [member body ''query''])"

text \<open>The items of a response stream that the \<open>for await\<close> loop gets to: those before
  the first failure.\<close>

fun reached :: "openai_stream \<Rightarrow> openai_stream" where
  "reached [] = []"
| "reached (Item event now # stream) = Item event now # reached stream"
| "reached (StreamThrows t # stream) = []"

section \<open>The merge loop: invariants and termination\<close>

lemma issue_next_fields:
  "generators (issue_next g s) = (generators s)[g := snd (gen_next (generators s ! g))]"
  "pendingPromises (issue_next g s) =
     AList.update g (then_promise (\<lambda>r. (g, r)) (fst (gen_next (generators s ! g)))) (pendingPromises s)"
  "trace (issue_next g s) = trace s @ [Next g]"
  "caught (issue_next g s) = caught s"
  "schedule (issue_next g s) = schedule s"
  "cancel (issue_next g s) = cancel s"
  by (simp_all add: issue_next_def split: prod.splits)

lemma race_winner_in: "ps \<noteq> [] \<Longrightarrow> race_winner sched ps \<in> set ps"
  by (cases sched) (simp_all add: race_winner_def)

lemma loop_body_cases:
  assumes "loop_cond s"
  obtains
    (rejects) k t where "(k, Rejects t) \<in> set (pendingPromises s)"
      "loop_body s = s\<lparr>caught := Some t, schedule := tl (schedule s)\<rparr>"
      "\<not> enqueue_throws s"
  | (finished) k g where "(k, Resolves (g, Done)) \<in> set (pendingPromises s)"
      "loop_body s = s\<lparr>pendingPromises := AList.delete g (pendingPromises s),
                       trace := trace s @ [Received g Done, Delete g],
                       schedule := tl (schedule s)\<rparr>"
      "\<not> enqueue_throws s"
  | (yields) k g v where "(k, Resolves (g, Value v)) \<in> set (pendingPromises s)"
      "loop_body s = issue_next g
                 (s\<lparr>trace := trace s @ [Received g (Value v), Enqueue (event_frame v)],
                    cancel := map_option (\<lambda>n. n - 1) (cancel s),
                    schedule := tl (schedule s)\<rparr>)"
      "\<not> enqueue_throws s" "cancel s \<noteq> Some 0"
  | (throws) k g v where "(k, Resolves (g, Value v)) \<in> set (pendingPromises s)"
      "loop_body s = s\<lparr>trace := trace s @ [Received g (Value v), EnqueueThrows],
                       caught := Some InvalidState, schedule := tl (schedule s)\<rparr>"
      "enqueue_throws s" "cancel s = Some 0"
proof -
  let ?w = "race_winner (schedule s) (map snd (pendingPromises s))"
  from assms have ne: "pendingPromises s \<noteq> []" and c: "caught s = None"
    by (simp_all add: loop_cond_def)
  have "?w \<in> set (map snd (pendingPromises s))"
    using ne by (intro race_winner_in) simp
  then obtain k where k: "(k, ?w) \<in> set (pendingPromises s)" by auto
  show thesis
  proof (cases ?w)
    case (Rejects t)
    with k show thesis
      by (intro rejects[of k t]) (simp_all add: loop_body_def enqueue_throws_def)
  next
    case (Resolves x)
    obtain g r where x: "x = (g, r)" by (cases x)
    show thesis
    proof (cases r)
      case Done
      with k Resolves x show thesis
        by (intro finished[of k g]) (simp_all add: loop_body_def enqueue_throws_def)
    next
      case (Value v)
      show thesis
      proof (cases "cancel s = Some 0")
        case True
        with k Resolves x Value c show thesis
          by (intro throws[of k g v])
            (simp_all add: loop_body_def enqueue_throws_def controller_enqueue_def)
      next
        case False
        have eq: "s\<lparr>schedule := a, trace := b, cancel := d\<rparr> =
                  s\<lparr>trace := b, cancel := d, schedule := a\<rparr>" for a b d
          by (cases s) simp
        from False k Resolves x Value c show thesis
          by (intro yields[of k g v])
            (simp_all add: loop_body_def enqueue_throws_def controller_enqueue_def eq)
      qed
    qed
  qed
qed

lemma received_values_append [simp]:
  "received_values (a @ b) = received_values a @ received_values b"
  by (induction a rule: received_values.induct) simp_all

lemma enqueued_append [simp]: "enqueued (a @ b) = enqueued a @ enqueued b"
  by (induction a rule: enqueued.induct) simp_all

lemma forwarded_append [simp]: "forwarded i (a @ b) = forwarded i a @ forwarded i b"
  by (simp add: forwarded_def)

lemma pending_steps_gen_next:
  "pending_steps (Some (then_promise (\<lambda>r. (k, r)) (fst (gen_next g)))) (snd (gen_next g)) = cut g"
  by (induction g rule: gen_next.induct) simp_all

lemma shape_map_of:
  "shape n s \<Longrightarrow> (k, p) \<in> set (pendingPromises s) \<Longrightarrow> map_of (pendingPromises s) k = Some p"
  by (simp add: shape_def keys_def)

lemma shape_key:
  "shape n s \<Longrightarrow> (k, Resolves (g, r)) \<in> set (pendingPromises s) \<Longrightarrow> g = k \<and> k < n"
  by (auto simp: shape_def)

lemma set_delete_subset: "set (AList.delete k al) \<subseteq> set al"
  by (auto simp: AList.delete_eq)

lemma set_update_subset: "set (AList.update k q al) \<subseteq> insert (k, q) (set al)"
  by (induction al) auto

lemma shapeI:
  assumes "length (generators s) = n" "distinct (map fst (pendingPromises s))"
    "\<And>i p. (i, p) \<in> set (pendingPromises s) \<Longrightarrow> i < n"
    "\<And>i g r. (i, Resolves (g, r)) \<in> set (pendingPromises s) \<Longrightarrow> g = i"
  shows "shape n s"
  using assms unfolding shape_def keys_def by blast

lemma shapeD:
  assumes "shape n s"
  shows "length (generators s) = n" "distinct (map fst (pendingPromises s))"
    "\<And>i p. (i, p) \<in> set (pendingPromises s) \<Longrightarrow> i < n"
    "\<And>i g r. (i, Resolves (g, r)) \<in> set (pendingPromises s) \<Longrightarrow> g = i"
  using assms unfolding shape_def keys_def by blast+

lemma shape_loop_body:
  assumes "shape n s" "loop_cond s"
  shows "shape n (loop_body s)"
  using assms(2)
proof (cases s rule: loop_body_cases)
  case (rejects k t)
  with shapeD[OF assms(1)] show ?thesis by (intro shapeI) simp_all
next
  case (throws k g v)
  with shapeD[OF assms(1)] show ?thesis by (intro shapeI) simp_all
next
  case (finished k g)
  note D = shapeD[OF assms(1)]
  show ?thesis
  proof (rule shapeI)
    show "length (generators (loop_body s)) = n" using D(1) finished(2) by simp
    show "distinct (map fst (pendingPromises (loop_body s)))"
      using D(2) finished(2) by (simp add: AList.distinct_delete)
    show "i < n" if "(i, p) \<in> set (pendingPromises (loop_body s))" for i p
      using that D(3)[of i p] set_delete_subset[of g "pendingPromises s"] finished(2) by auto
    show "g' = i" if "(i, Resolves (g', r)) \<in> set (pendingPromises (loop_body s))" for i g' r
      using that D(4)[of i g' r] set_delete_subset[of g "pendingPromises s"] finished(2) by auto
  qed
next
  case (yields k g v)
  note D = shapeD[OF assms(1)]
  from D(3)[OF yields(1)] D(4)[OF yields(1)] have gk: "g = k" "k < n" by simp_all
  let ?q = "then_promise (\<lambda>r. (g, r)) (fst (gen_next (generators s ! g)))"
  have pp: "pendingPromises (loop_body s) = AList.update g ?q (pendingPromises s)"
    using yields(2) by (simp add: issue_next_fields)
  have q: "?q = Resolves (g', r) \<Longrightarrow> g' = g" for g' r
    by (cases "fst (gen_next (generators s ! g))") auto
  show ?thesis
  proof (rule shapeI)
    show "length (generators (loop_body s)) = n" using D(1) yields(2) by (simp add: issue_next_fields)
    show "distinct (map fst (pendingPromises (loop_body s)))"
      using D(2) pp by (simp add: AList.distinct_update)
    show "i < n" if "(i, p) \<in> set (pendingPromises (loop_body s))" for i p
      using that D(3)[of i p] set_update_subset[of g ?q "pendingPromises s"] gk pp by auto
    show "g' = i" if "(i, Resolves (g', r)) \<in> set (pendingPromises (loop_body s))" for i g' r
      using that D(4)[of i g' r] set_update_subset[of g ?q "pendingPromises s"] q[of g' r] pp by auto
  qed
qed

lemma conserved_loop_body:
  assumes "shape (length G) s" "conserved G s" "loop_cond s" "\<not> enqueue_throws s"
  shows "conserved G (loop_body s)"
  using assms(3)
proof (cases s rule: loop_body_cases)
  case (rejects k t)
  with assms(2) show ?thesis by (simp add: conserved_def)
next
  case (throws k g v)
  with assms(4) show ?thesis by simp
next
  case (finished k g)
  note D = shapeD[OF assms(1)]
  from D(4)[OF finished(1)] have gk: "g = k" .
  have mk: "map_of (pendingPromises s) k = Some (Resolves (k, Done))"
    using finished(1) D(2) gk by simp
  show ?thesis
    unfolding conserved_def
  proof (intro allI impI)
    fix i assume i: "i < length G"
    from assms(2) i have c: "cut (G ! i) = map Yield (forwarded i (trace s)) @
        pending_steps (map_of (pendingPromises s) i) (generators s ! i)"
      by (simp add: conserved_def)
    have fw: "forwarded i (trace (loop_body s)) = forwarded i (trace s)"
      using finished(2) by (simp add: forwarded_def)
    show "cut (G ! i) = map Yield (forwarded i (trace (loop_body s))) @
        pending_steps (map_of (pendingPromises (loop_body s)) i) (generators (loop_body s) ! i)"
    proof (cases "i = k")
      case True
      then show ?thesis using c mk fw finished(2) gk by (simp add: AList.delete_conv')
    next
      case False
      then show ?thesis using c fw finished(2) gk by (simp add: AList.delete_conv')
    qed
  qed
next
  case (yields k g v)
  note D = shapeD[OF assms(1)]
  from D(3)[OF yields(1)] D(4)[OF yields(1)] have gk: "g = k" "k < length G" by simp_all
  have mk: "map_of (pendingPromises s) k = Some (Resolves (k, Value v))"
    using yields(1) D(2) gk by simp
  show ?thesis
    unfolding conserved_def
  proof (intro allI impI)
    fix i assume i: "i < length G"
    from assms(2) i have c: "cut (G ! i) = map Yield (forwarded i (trace s)) @
        pending_steps (map_of (pendingPromises s) i) (generators s ! i)"
      by (simp add: conserved_def)
    show "cut (G ! i) = map Yield (forwarded i (trace (loop_body s))) @
        pending_steps (map_of (pendingPromises (loop_body s)) i) (generators (loop_body s) ! i)"
    proof (cases "i = k")
      case True
      have "forwarded i (trace (loop_body s)) = forwarded i (trace s) @ [v]"
        using yields(2) True gk by (simp add: issue_next_fields forwarded_def)
      moreover have "pending_steps (map_of (pendingPromises (loop_body s)) i) (generators (loop_body s) ! i)
          = cut (generators s ! k)"
        using yields(2) True gk D(1) by (simp add: issue_next_fields AList.update_conv' pending_steps_gen_next)
      ultimately show ?thesis using c mk True by simp
    next
      case False
      have "forwarded i (trace (loop_body s)) = forwarded i (trace s)"
        using yields(2) False gk by (simp add: issue_next_fields forwarded_def)
      moreover have "pending_steps (map_of (pendingPromises (loop_body s)) i) (generators (loop_body s) ! i)
          = pending_steps (map_of (pendingPromises s) i) (generators s ! i)"
        using yields(2) False gk by (simp add: issue_next_fields AList.update_conv')
      ultimately show ?thesis using c by simp
    qed
  qed
qed

lemma loop_trace_append: "loop_trace a \<Longrightarrow> loop_trace b \<Longrightarrow> loop_trace (a @ b)"
  by (induction a rule: loop_trace.induct) simp_all

lemma nexts_append [simp]: "nexts i (a @ b) = nexts i a + nexts i b"
  by (induction i a rule: nexts.induct) simp_all

lemma answers_append [simp]: "answers i (a @ b) = answers i a + answers i b"
  by (induction i a rule: answers.induct) simp_all

lemma trace_ok_loop_body:
  assumes "trace_ok n s" "loop_cond s" "\<not> enqueue_throws s"
  shows "trace_ok n (loop_body s)"
proof -
  from assms(1) obtain body where b: "trace s = map Next [0..<n] @ body" "loop_trace body"
    unfolding trace_ok_def by blast
  from assms(2) show ?thesis
  proof (cases s rule: loop_body_cases)
    case (rejects k t)
    with b show ?thesis unfolding trace_ok_def by auto
  next
    case (throws k g v)
    with assms(3) show ?thesis by simp
  next
    case (finished k g)
    have "loop_trace (body @ [Received g Done, Delete g])"
      using b(2) by (intro loop_trace_append) simp_all
    then show ?thesis unfolding trace_ok_def using b(1) finished(2) by auto
  next
    case (yields k g v)
    have "loop_trace (body @ [Received g (Value v), Enqueue (event_frame v), Next g])"
      using b(2) by (intro loop_trace_append) simp_all
    then show ?thesis unfolding trace_ok_def using b(1) yields(2) by (auto simp: issue_next_fields)
  qed
qed

lemma keys_loop_body:
  assumes "shape n s" "loop_cond s"
  shows "set (keys (loop_body s)) \<subseteq> set (keys s) \<and>
         length (pendingPromises (loop_body s)) \<le> length (pendingPromises s)"
  using assms(2)
proof (cases s rule: loop_body_cases)
  case (rejects k t)
  then show ?thesis by (simp add: keys_def)
next
  case (throws k g v)
  then show ?thesis by (simp add: keys_def)
next
  case (finished k g)
  then show ?thesis using set_delete_subset[of g "pendingPromises s"]
    by (auto simp: keys_def AList.length_delete_le)
next
  case (yields k g v)
  from shapeD(4)[OF assms(1) yields(1)] have gk: "g = k" .
  have kin: "k \<in> fst ` set (pendingPromises s)" using yields(1) by force
  have "map fst (pendingPromises (loop_body s)) = map fst (pendingPromises s)"
    using yields(2) gk kin by (simp add: issue_next_fields AList.update_keys)
  then show ?thesis by (metis keys_def length_map order_refl)
qed

lemma counts_ok_loop_body:
  assumes "shape n s" "counts_ok n s" "loop_cond s" "\<not> enqueue_throws s"
  shows "counts_ok n (loop_body s)"
  using assms(3)
proof (cases s rule: loop_body_cases)
  case (rejects k t)
  with assms(2) show ?thesis by (simp add: counts_ok_def keys_def)
next
  case (throws k g v)
  with assms(4) show ?thesis by simp
next
  case (finished k g)
  note D = shapeD[OF assms(1)]
  from D(4)[OF finished(1)] have gk: "g = k" .
  have kin: "k \<in> set (keys s)" using finished(1) by (force simp: keys_def)
  have ks: "set (keys (loop_body s)) = set (keys s) - {k}"
    using finished(2) gk by (auto simp: keys_def AList.delete_keys)
  have tr: "trace (loop_body s) = trace s @ [Received k Done, Delete k]"
    using finished(2) gk by simp
  show ?thesis
    unfolding counts_ok_def
  proof (intro conjI allI impI)
    fix i assume i: "i < n"
    from assms(2) i have c: "nexts i (trace s) = answers i (trace s) + (if i \<in> set (keys s) then 1 else 0)"
      by (simp add: counts_ok_def)
    show "nexts i (trace (loop_body s)) =
            answers i (trace (loop_body s)) + (if i \<in> set (keys (loop_body s)) then 1 else 0)"
      using c kin by (cases "i = k") (simp_all add: tr ks)
  next
    fix i assume i: "i < n"
    from assms(2) i have c: "i \<in> set (keys s) \<longleftrightarrow> Received i Done \<notin> set (trace s)"
      by (simp add: counts_ok_def)
    show "i \<in> set (keys (loop_body s)) \<longleftrightarrow> Received i Done \<notin> set (trace (loop_body s))"
      using c kin by (cases "i = k") (simp_all add: tr ks)
  qed
next
  case (yields k g v)
  note D = shapeD[OF assms(1)]
  from D(4)[OF yields(1)] have gk: "g = k" .
  have kin: "k \<in> set (keys s)" using yields(1) by (force simp: keys_def)
  have "map fst (pendingPromises (loop_body s)) = map fst (pendingPromises s)"
    using yields(2) gk kin by (simp add: issue_next_fields AList.update_keys keys_def)
  then have ks: "keys (loop_body s) = keys s" by (simp add: keys_def)
  have tr: "trace (loop_body s) = trace s @ [Received k (Value v), Enqueue (event_frame v), Next k]"
    using yields(2) gk by (simp add: issue_next_fields)
  show ?thesis
    unfolding counts_ok_def
  proof (intro conjI allI impI)
    fix i assume i: "i < n"
    from assms(2) i have c: "nexts i (trace s) = answers i (trace s) + (if i \<in> set (keys s) then 1 else 0)"
      by (simp add: counts_ok_def)
    show "nexts i (trace (loop_body s)) =
            answers i (trace (loop_body s)) + (if i \<in> set (keys (loop_body s)) then 1 else 0)"
      using c kin by (cases "i = k") (simp_all add: tr ks)
  next
    fix i assume i: "i < n"
    from assms(2) i have c: "i \<in> set (keys s) \<longleftrightarrow> Received i Done \<notin> set (trace s)"
      by (simp add: counts_ok_def)
    show "i \<in> set (keys (loop_body s)) \<longleftrightarrow> Received i Done \<notin> set (trace (loop_body s))"
      using c kin by (simp_all add: tr ks)
  qed
qed

lemma update_fresh: "k \<notin> fst ` set al \<Longrightarrow> AList.update k v al = al @ [(k, v)]"
  by (induction al) auto

lemma fold_issue_next_upt:
  assumes "k \<le> length gens"
  shows "fold issue_next [0..<k]
           \<lparr>trace = [], cancel = c, caught = None, schedule = sched,
            generators = gens, pendingPromises = []\<rparr> =
         \<lparr>trace = map Next [0..<k], cancel = c, caught = None, schedule = sched,
          generators = map (\<lambda>g. snd (gen_next g)) (take k gens) @ drop k gens,
          pendingPromises = map (first_promise gens) [0..<k]\<rparr>"
  using assms
proof (induction k)
  case 0
  then show ?case by simp
next
  case (Suc k)
  then have k: "k < length gens" by simp
  let ?A = "map (\<lambda>g. snd (gen_next g)) (take k gens)"
  have len: "length ?A = k" using k by simp
  have nth: "(?A @ drop k gens) ! k = gens ! k"
    using k len by (simp add: nth_append)
  have upd: "(?A @ drop k gens)[k := x] = ?A @ x # drop (Suc k) gens" for x
    using k len by (simp add: list_update_append upd_conv_take_nth_drop Cons_nth_drop_Suc[symmetric])
  have tk: "map (\<lambda>g. snd (gen_next g)) (take (Suc k) gens) = ?A @ [snd (gen_next (gens ! k))]"
    using k by (simp add: take_Suc_conv_app_nth)
  have fresh: "k \<notin> fst ` set (map (first_promise gens) [0..<k])"
    by (auto simp: first_promise_def)
  have fp: "AList.update k (then_promise (\<lambda>r. (k, r)) (fst (gen_next (gens ! k))))
               (map (first_promise gens) [0..<k]) =
             map (first_promise gens) [0..<k] @ [first_promise gens k]"
    using update_fresh[OF fresh] by (simp add: first_promise_def)
  show ?case
    using Suc.IH k
    by (simp add: issue_next_def case_prod_beta nth upd tk fp)
qed

lemma initial_state_eq:
  "initial_state gens sched c =
     \<lparr>trace = map Next [0..<length gens], cancel = c, caught = None, schedule = sched,
      generators = map (\<lambda>g. snd (gen_next g)) gens,
      pendingPromises = map (first_promise gens) [0..<length gens]\<rparr>"
  unfolding initial_state_def by (simp add: fold_issue_next_upt)

lemma cut_eq_D:
  "cut g = map Yield xs @ r \<Longrightarrow>
     (r = [] \<longrightarrow> throws g = None \<and> yielded g = xs) \<and>
     (\<forall>t. r = [Throw t] \<longrightarrow> throws g = Some t \<and> yielded g = xs)"
proof (induction xs arbitrary: g)
  case Nil
  then show ?case by (cases g rule: cut.cases) auto
next
  case (Cons x xs)
  then show ?case by (cases g rule: cut.cases) auto
qed

lemma cut_take:
  "cut g = map Yield xs @ r \<Longrightarrow> take (length xs) (yielded g) = xs"
proof (induction xs arbitrary: g)
  case Nil
  then show ?case by simp
next
  case (Cons x xs)
  then show ?case by (cases g rule: cut.cases) auto
qed

lemma map_of_first_promise:
  "i < n \<Longrightarrow> map_of (map (first_promise gens) [0..<n]) i = Some (snd (first_promise gens i))"
proof -
  assume i: "i < n"
  have eq: "first_promise gens = (\<lambda>k. (k, snd (first_promise gens k)))"
    by (rule ext) (simp add: first_promise_def)
  show ?thesis
    by (subst eq) (simp add: map_of_map_restrict i)
qed

lemma received_values_Next [simp]: "received_values (map Next xs) = []"
  by (induction xs) simp_all

lemma nexts_Next: "nexts i (map Next xs) = count_list xs i"
  by (induction xs) simp_all

lemma answers_Next [simp]: "answers i (map Next xs) = 0"
  by (induction xs) simp_all

lemma keys_initial: "keys (initial_state gens sched c) = [0..<length gens]"
  by (simp add: keys_def initial_state_eq first_promise_def comp_def)

lemma shape_initial: "shape (length gens) (initial_state gens sched c)"
proof (rule shapeI)
  show "distinct (map fst (pendingPromises (initial_state gens sched c)))"
    using keys_initial[of gens sched c] by (simp add: keys_def)
  show "i < length gens" if "(i, p) \<in> set (pendingPromises (initial_state gens sched c))" for i p
    using that by (auto simp: initial_state_eq first_promise_def)
  show "g = i" if "(i, Resolves (g, r)) \<in> set (pendingPromises (initial_state gens sched c))" for i g r
  proof -
    from that have "then_promise (\<lambda>r. (i, r)) (fst (gen_next (gens ! i))) = Resolves (g, r)"
      by (auto simp: initial_state_eq first_promise_def)
    then show ?thesis by (cases "fst (gen_next (gens ! i))") auto
  qed
qed (simp add: initial_state_eq)

lemma conserved_initial: "conserved gens (initial_state gens sched c)"
  unfolding conserved_def
  by (simp add: initial_state_eq map_of_first_promise first_promise_def forwarded_def
      pending_steps_gen_next)

lemma count_upt: "count_list [0..<n] i = (if i < n then 1 else 0)"
  by (induction n) simp_all

lemma trace_ok_initial: "trace_ok (length gens) (initial_state gens sched c)"
  unfolding trace_ok_def by (simp add: initial_state_eq)

lemma counts_ok_initial: "counts_ok (length gens) (initial_state gens sched c)"
  unfolding counts_ok_def keys_initial
  by (auto simp: initial_state_eq nexts_Next count_upt)

lemma caught_ok_initial: "caught_ok gens (initial_state gens sched c)"
  by (simp add: caught_ok_def initial_state_eq)

lemma Inv_initial: "Inv gens (initial_state gens sched c)"
  unfolding Inv_def
  by (intro conjI shape_initial conserved_initial trace_ok_initial counts_ok_initial
      caught_ok_initial)

lemma caught_ok_loop_body:
  assumes "shape (length G) s" "conserved G s" "caught_ok G s" "loop_cond s"
    "\<not> enqueue_throws s"
  shows "caught_ok G (loop_body s)"
  using assms(4)
proof (cases s rule: loop_body_cases)
  case (throws k g v)
  with assms(5) show ?thesis by simp
next
  case (rejects k t)
  note D = shapeD[OF assms(1)]
  have k: "k < length G" using D(3)[OF rejects(1)] .
  have mk: "map_of (pendingPromises s) k = Some (Rejects t)"
    using rejects(1) D(2) by simp
  from assms(2) k mk have "cut (G ! k) = map Yield (forwarded k (trace s)) @ [Throw t]"
    by (simp add: conserved_def)
  from cut_eq_D[OF this] have "throws (G ! k) = Some t" by simp
  with k rejects(2) show ?thesis unfolding caught_ok_def by auto
next
  case (finished k g)
  with assms(3) show ?thesis by (simp add: caught_ok_def)
next
  case (yields k g v)
  with assms(3) show ?thesis by (simp add: caught_ok_def issue_next_fields)
qed

lemma Inv_loop_body:
  assumes "Inv G s" "loop_cond s" "\<not> enqueue_throws s"
  shows "Inv G (loop_body s)"
proof -
  note ne = assms(2) and nt = assms(3)
  from assms(1) have a: "shape (length G) s" "conserved G s" "trace_ok (length G) s"
    "counts_ok (length G) s" "caught_ok G s"
    unfolding Inv_def by simp_all
  show ?thesis
    unfolding Inv_def
    using shape_loop_body[OF a(1) ne] conserved_loop_body[OF a(1) a(2) ne nt]
      trace_ok_loop_body[OF a(3) ne nt] counts_ok_loop_body[OF a(1) a(4) ne nt]
      caught_ok_loop_body[OF a(1) a(2) a(5) ne nt]
    by simp
qed

lemma weight_gen_next:
  "weight (Some (then_promise (\<lambda>r. (k, r)) (fst (gen_next g)))) (snd (gen_next g)) < 2 + length g"
  by (induction g rule: gen_next.induct) simp_all

lemma sum_decrease:
  fixes f f' :: "nat \<Rightarrow> nat"
  assumes "k < n" "f' k < f k" "\<And>i. i \<noteq> k \<Longrightarrow> f' i = f i"
  shows "(\<Sum>i<n. f' i) < (\<Sum>i<n. f i)"
proof -
  have "(\<Sum>i<n. f' i) = f' k + (\<Sum>i\<in>{..<n} - {k}. f' i)"
    using assms(1) by (simp add: sum.remove)
  also have "(\<Sum>i\<in>{..<n} - {k}. f' i) = (\<Sum>i\<in>{..<n} - {k}. f i)"
    by (rule sum.cong) (simp_all add: assms(3))
  also have "f' k + \<dots> < f k + (\<Sum>i\<in>{..<n} - {k}. f i)" using assms(2) by simp
  also have "\<dots> = (\<Sum>i<n. f i)" using assms(1) by (simp add: sum.remove)
  finally show ?thesis .
qed

lemma remaining_loop_body:
  assumes "shape n s" "loop_cond s"
  shows "remaining n (loop_body s) < remaining n s"
proof -
  from assms(2) have ne: "pendingPromises s \<noteq> []" and c: "caught s = None"
    by (simp_all add: loop_cond_def)
  note D = shapeD[OF assms(1)]
  from assms(2) show ?thesis
  proof (cases s rule: loop_body_cases)
    case (rejects k t)
    then show ?thesis using c by (simp add: remaining_def)
  next
    case (throws k g v)
    then show ?thesis using c by (simp add: remaining_def)
  next
    case (finished k g)
    from D(3)[OF finished(1)] D(4)[OF finished(1)] have gk: "g = k" "k < n" by simp_all
    have mk: "map_of (pendingPromises s) k = Some (Resolves (k, Done))"
      using finished(1) D(2) gk by simp
    have "(\<Sum>i<n. weight (map_of (pendingPromises (loop_body s)) i) (generators (loop_body s) ! i))
        < (\<Sum>i<n. weight (map_of (pendingPromises s) i) (generators s ! i))"
      using gk mk finished(2) by (intro sum_decrease[of k]) (simp_all add: AList.delete_conv')
    then show ?thesis using finished(2) by (simp add: remaining_def)
  next
    case (yields k g v)
    from D(3)[OF yields(1)] D(4)[OF yields(1)] have gk: "g = k" "k < n" by simp_all
    have mk: "map_of (pendingPromises s) k = Some (Resolves (k, Value v))"
      using yields(1) D(2) gk by simp
    have "(\<Sum>i<n. weight (map_of (pendingPromises (loop_body s)) i) (generators (loop_body s) ! i))
        < (\<Sum>i<n. weight (map_of (pendingPromises s) i) (generators s ! i))"
      using gk mk yields(2) D(1) weight_gen_next[of k "generators s ! k"]
      by (intro sum_decrease[of k]) (simp_all add: issue_next_fields AList.update_conv')
    then show ?thesis using yields(2) by (simp add: remaining_def issue_next_fields)
  qed
qed

lemma while_loop_terminates:
  assumes "shape n s"
  shows "\<exists>t. while_loop s = Some t"
  unfolding while_loop_def
proof (rule measure_while_option_Some[where P = "shape n" and f = "remaining n"])
  fix s assume "shape n s" "loop_cond s"
  then show "shape n (loop_body s) \<and> remaining n (loop_body s) < remaining n s"
    by (simp add: shape_loop_body remaining_loop_body)
qed (rule assms)

lemma unhex_hexdigit: "d < 16 \<Longrightarrow> unhex (hexdigit d) = Some d"
proof (cases "d < 10")
  case True
  then show ?thesis by (simp add: unhex_def hexdigit_def)
next
  case False
  assume "d < 16"
  with False show ?thesis by (simp add: unhex_def hexdigit_def)
qed

lemma unhex_zero: "unhex CHR ''0'' = Some 0"
  by (simp add: unhex_def)

lemma unicode_escape_control:
  assumes "(of_char c :: nat) < 32"
  shows "unicode_escape [CHR ''0'', CHR ''0'', hexdigit (of_char c div 16), hexdigit (of_char c mod 16)] = Some c"
proof -
  have "(of_char c :: nat) div 16 < 16" using assms by simp
  moreover have "(of_char c :: nat) mod 16 < 16" by simp
  moreover have "(of_char c :: nat) div 16 * 16 + of_char c mod 16 = of_char c" by simp
  ultimately show ?thesis using assms
    by (simp add: unicode_escape_def unhex_zero unhex_hexdigit)
qed

lemma escape_char_plain:
  assumes "\<not> (of_char c :: nat) < 32" "c \<noteq> CHR 0x22" "c \<noteq> CHR 0x5C"
  shows "escape_char c = [c]"
proof -
  have "c \<noteq> CHR 0x08" "c \<noteq> CHR 0x09" "c \<noteq> CHR 0x0A" "c \<noteq> CHR 0x0C" "c \<noteq> CHR 0x0D"
    using assms(1) by auto
  then show ?thesis using assms by (simp add: escape_char_def)
qed

lemma escape_char_control:
  assumes "(of_char c :: nat) < 32" "c \<noteq> CHR 0x08" "c \<noteq> CHR 0x09" "c \<noteq> CHR 0x0A" "c \<noteq> CHR 0x0C" "c \<noteq> CHR 0x0D"
  shows "escape_char c = [CHR 0x5C, CHR ''u'', CHR ''0'', CHR ''0'',
              hexdigit (of_char c div 16), hexdigit (of_char c mod 16)]"
proof -
  have "c \<noteq> CHR 0x22" "c \<noteq> CHR 0x5C" using assms(1) by auto
  then show ?thesis using assms by (simp add: escape_char_def)
qed

lemma parse_chars_quote: "parse_chars (CHR 0x22 # cs) = Some ([], cs)"
  by simp

lemma parse_chars_plain:
  assumes "\<not> (of_char c :: nat) < 32" "c \<noteq> CHR 0x22" "c \<noteq> CHR 0x5C"
  shows "parse_chars (c # cs) = map_option (\<lambda>(str, rest). (c # str, rest)) (parse_chars cs)"
  using assms by simp

lemma parse_chars_backslash:
  assumes "unescape e = Some x" "e \<noteq> CHR ''u''"
  shows "parse_chars (CHR 0x5C # e # es) = map_option (\<lambda>(str, rest). (x # str, rest)) (parse_chars es)"
  using assms by simp

lemma parse_chars_u:
  assumes "unicode_escape (take 4 es) = Some x"
  shows "parse_chars (CHR 0x5C # CHR ''u'' # es) =
         map_option (\<lambda>(str, rest). (x # str, rest)) (parse_chars (drop 4 es))"
  using assms by simp

declare parse_chars.simps [simp del]

lemma parse_chars_escape:
  "parse_chars (escape_char c @ rest) =
     map_option (\<lambda>(str, r). (c # str, r)) (parse_chars rest)"
proof -
  consider (b) "c = CHR 0x08" | (t) "c = CHR 0x09" | (n) "c = CHR 0x0A" | (f) "c = CHR 0x0C"
    | (r) "c = CHR 0x0D" | (q) "c = CHR 0x22" | (bs) "c = CHR 0x5C"
    | (ctl) "(of_char c :: nat) < 32" "c \<noteq> CHR 0x08" "c \<noteq> CHR 0x09" "c \<noteq> CHR 0x0A"
        "c \<noteq> CHR 0x0C" "c \<noteq> CHR 0x0D"
    | (plain) "\<not> (of_char c :: nat) < 32" "c \<noteq> CHR 0x22" "c \<noteq> CHR 0x5C"
    by blast
  then show ?thesis
  proof cases
    case b
    have "unescape CHR ''b'' = Some (CHR 0x08)" by (simp add: unescape_def)
    from parse_chars_backslash[OF this] show ?thesis by (simp add: b escape_char_def)
  next
    case t
    have "unescape CHR ''t'' = Some (CHR 0x09)" by (simp add: unescape_def)
    from parse_chars_backslash[OF this] show ?thesis by (simp add: t escape_char_def)
  next
    case n
    have "unescape CHR ''n'' = Some (CHR 0x0A)" by (simp add: unescape_def)
    from parse_chars_backslash[OF this] show ?thesis by (simp add: n escape_char_def)
  next
    case f
    have "unescape CHR ''f'' = Some (CHR 0x0C)" by (simp add: unescape_def)
    from parse_chars_backslash[OF this] show ?thesis by (simp add: f escape_char_def)
  next
    case r
    have "unescape CHR ''r'' = Some (CHR 0x0D)" by (simp add: unescape_def)
    from parse_chars_backslash[OF this] show ?thesis by (simp add: r escape_char_def)
  next
    case q
    have "unescape (CHR 0x22) = Some (CHR 0x22)" by (simp add: unescape_def)
    from parse_chars_backslash[OF this] show ?thesis by (simp add: q escape_char_def)
  next
    case bs
    have "unescape (CHR 0x5C) = Some (CHR 0x5C)" by (simp add: unescape_def)
    from parse_chars_backslash[OF this] show ?thesis by (simp add: bs escape_char_def)
  next
    case ctl
    have "unicode_escape (take 4 ([CHR ''0'', CHR ''0'', hexdigit (of_char c div 16),
            hexdigit (of_char c mod 16)] @ rest)) = Some c"
      using unicode_escape_control[OF ctl(1)] by simp
    from parse_chars_u[OF this] show ?thesis
      by (simp add: escape_char_control[OF ctl])
  next
    case plain
    from parse_chars_plain[OF plain] show ?thesis by (simp add: escape_char_plain[OF plain])
  qed
qed

lemma parse_chars_quoted:
  "parse_chars (concat (map escape_char s) @ CHR 0x22 # rest) = Some (s, rest)"
  by (induction s) (simp_all add: parse_chars_escape parse_chars_quote)

lemma is_digit_char_of: "(d::nat) < 10 \<Longrightarrow> is_digit (char_of (48 + d))"
  by (simp add: is_digit_def)

lemma digit_value_char_of: "(d::nat) < 10 \<Longrightarrow> digit_value (char_of (48 + d)) = d"
  by (simp add: digit_value_def)

lemma digits_all: "\<forall>c \<in> set (digits n). is_digit c"
proof (induction n rule: digits.induct)
  case (1 n)
  show ?case
  proof (cases "n < 10")
    case True
    then show ?thesis by (subst digits.simps) (simp add: is_digit_char_of)
  next
    case False
    with 1 show ?thesis by (subst digits.simps) (simp add: is_digit_char_of)
  qed
qed

lemma digits_nonempty: "digits n \<noteq> []"
  by (subst digits.simps) simp

lemma digits_value: "foldl (\<lambda>a d. 10 * a + digit_value d) 0 (digits n) = n"
proof (induction n rule: digits.induct)
  case (1 n)
  show ?case
  proof (cases "n < 10")
    case True
    then show ?thesis by (subst digits.simps) (simp add: digit_value_char_of)
  next
    case False
    with 1 show ?thesis by (subst digits.simps) (simp add: digit_value_char_of)
  qed
qed

lemma digits_hd: "0 < n \<Longrightarrow> hd (digits n) \<noteq> CHR ''0''"
proof (induction n rule: digits.induct)
  case (1 n)
  show ?case
  proof (cases "n < 10")
    case True
    have "char_of (48 + n) = CHR ''0'' \<Longrightarrow> False"
    proof -
      assume "char_of (48 + n) = CHR ''0''"
      then have "(of_char (char_of (48 + n)) :: nat) = of_char CHR ''0''" by simp
      with True 1(2) show False by simp
    qed
    with True show ?thesis by (subst digits.simps) auto
  next
    case False
    then have "0 < n div 10" by simp
    with 1 False show ?thesis by (subst digits.simps) (simp add: digits_nonempty)
  qed
qed

lemma digits_leading: "hd (digits n) = CHR ''0'' \<Longrightarrow> tl (digits n) = []"
proof (cases "n = 0")
  case True
  then show ?thesis by (subst digits.simps) simp
next
  case False
  assume "hd (digits n) = CHR ''0''"
  with digits_hd[of n] False show ?thesis by simp
qed

lemma takeWhile_digits:
  assumes "number_end rest"
  shows "takeWhile is_digit (digits n @ rest) = digits n"
    and "dropWhile is_digit (digits n @ rest) = rest"
proof -
  have r: "takeWhile is_digit rest = []" "dropWhile is_digit rest = rest"
    using assms by (cases rest; simp add: number_end_def)+
  show "takeWhile is_digit (digits n @ rest) = digits n"
    using digits_all[of n] r by (simp add: takeWhile_append2)
  show "dropWhile is_digit (digits n @ rest) = rest"
    using digits_all[of n] r by (simp add: dropWhile_append2)
qed

lemma parse_nat_digits:
  assumes "number_end rest"
  shows "parse_nat (digits n @ rest) = Some (n, rest)"
proof -
  have "\<not> (rest \<noteq> [] \<and> hd rest \<in> {CHR ''.'', CHR ''e'', CHR ''E''})"
    using assms by (auto simp: number_end_def)
  then show ?thesis
    using digits_leading[of n]
    by (simp add: parse_nat_def takeWhile_digits[OF assms] digits_nonempty digits_value Let_def)
qed

lemma digits_hd_digit: "is_digit (hd (digits n))"
  using digits_all[of n] digits_nonempty[of n] by (cases "digits n") auto

lemma parse_number_NumberToString:
  assumes "number_end rest"
  shows "parse_number (NumberToString i @ rest) = Some (i, rest)"
proof (cases "i < 0")
  case True
  then show ?thesis
    by (simp add: parse_number_def NumberToString_def parse_nat_digits[OF assms])
next
  case False
  obtain c cs where d: "digits (nat i) = c # cs" using digits_nonempty[of "nat i"] by (cases "digits (nat i)") auto
  have "is_digit c" using digits_hd_digit[of "nat i"] d by simp
  then have "c \<noteq> CHR ''-''" by (auto simp: is_digit_def)
  moreover have "parse_nat (c # cs @ rest) = Some (nat i, rest)"
    using parse_nat_digits[OF assms, of "nat i"] d by simp
  ultimately show ?thesis using False d
    by (simp add: parse_number_def NumberToString_def)
qed

lemma member_end_number_end: "member_end rest \<Longrightarrow> number_end rest"
  by (auto simp: member_end_def number_end_def is_digit_def)

lemma NumberToString_hd:
  "\<exists>c cs. NumberToString i = c # cs \<and> c \<noteq> CHR 0x22 \<and> \<not> is_ws c"
proof (cases "i < 0")
  case True
  then show ?thesis by (simp add: NumberToString_def is_ws_def)
next
  case False
  obtain c cs where d: "digits (nat i) = c # cs"
    using digits_nonempty[of "nat i"] by (cases "digits (nat i)") auto
  have "is_digit c" using digits_hd_digit[of "nat i"] d by simp
  then have "c \<noteq> CHR 0x22 \<and> \<not> is_ws c" by (auto simp: is_digit_def is_ws_def)
  with False d show ?thesis by (simp add: NumberToString_def)
qed

lemma parse_value_Serialize:
  assumes "member_end rest"
  shows "parse_value (SerializeJSONProperty v @ rest) = Some (v, rest)"
proof (cases v)
  case (Num i)
  obtain c cs where c: "NumberToString i = c # cs" "c \<noteq> CHR 0x22"
    using NumberToString_hd[of i] by blast
  have "parse_number (c # cs @ rest) = Some (i, rest)"
    using parse_number_NumberToString[OF member_end_number_end[OF assms], of i] c(1) by simp
  then show ?thesis using Num c by (simp add: parse_value_def)
next
  case (Str s)
  then show ?thesis by (simp add: parse_value_def QuoteJSONString_def parse_chars_quoted)
qed

lemma skip_ws_Serialize: "skip_ws (SerializeJSONProperty v @ rest) = SerializeJSONProperty v @ rest"
proof (cases v)
  case (Num i)
  obtain c cs where c: "NumberToString i = c # cs" "\<not> is_ws c"
    using NumberToString_hd[of i] by blast
  then show ?thesis using Num by (simp add: skip_ws_def)
next
  case (Str s)
  then show ?thesis by (simp add: skip_ws_def QuoteJSONString_def is_ws_def)
qed

lemma skip_ws_colon: "skip_ws (CHR '':'' # r) = CHR '':'' # r"
  by (simp add: skip_ws_def is_ws_def)

lemma skip_ws_member_end: "member_end rest \<Longrightarrow> skip_ws rest = rest"
  by (auto simp: member_end_def skip_ws_def is_ws_def)

lemma skip_ws_quote: "skip_ws (CHR 0x22 # r) = CHR 0x22 # r"
  by (simp add: skip_ws_def is_ws_def)

lemma parse_member_text:
  assumes "member_end rest"
  shows "parse_member (member_text kv @ rest) = Some (kv, rest)"
proof -
  obtain k v where kv: "kv = (k, v)" by (cases kv)
  have "member_text kv @ rest =
        CHR 0x22 # concat (map escape_char k) @ CHR 0x22 # (CHR '':'' # (SerializeJSONProperty v @ rest))"
    by (simp add: member_text_def QuoteJSONString_def kv)
  then show ?thesis
    by (simp add: parse_member_def parse_chars_quoted skip_ws_colon skip_ws_Serialize
        parse_value_Serialize[OF assms] kv)
qed

lemma member_text_hd: "\<exists>cs. member_text kv = CHR 0x22 # cs"
  by (simp add: member_text_def QuoteJSONString_def)

lemma parse_members_text:
  assumes "kvs \<noteq> []" "length kvs \<le> n"
  shows "parse_members n (join_comma (map member_text kvs) @ CHR ''}'' # rest) = Some (kvs, rest)"
  using assms
proof (induction kvs arbitrary: n)
  case Nil
  then show ?case by simp
next
  case (Cons kv kvs)
  then obtain m where n: "n = Suc m" "length kvs \<le> m" by (cases n) auto
  show ?case
  proof (cases kvs)
    case Nil
    have "member_end (CHR ''}'' # rest)" by (simp add: member_end_def)
    from parse_member_text[OF this, of kv] show ?thesis
      using Nil n by (simp add: skip_ws_def is_ws_def)
  next
    case (Cons kv' kvs')
    let ?tail = "join_comma (map member_text kvs) @ CHR ''}'' # rest"
    have me: "member_end (CHR '','' # ?tail)" by (simp add: member_end_def)
    have tx: "join_comma (map member_text (kv # kvs)) @ CHR ''}'' # rest =
               member_text kv @ CHR '','' # ?tail"
      using Cons by simp
    obtain cs where hd: "member_text kv' = CHR 0x22 # cs" using member_text_hd by blast
    have sk: "skip_ws ?tail = ?tail"
      using Cons hd by (cases kvs') (simp_all add: skip_ws_def is_ws_def)
    have ih: "parse_members m ?tail = Some (kvs, rest)"
      using Cons.IH[of m] n Cons by simp
    show ?thesis
      unfolding tx n(1)
      by (simp add: parse_member_text[OF me] skip_ws_member_end[OF me] sk ih)
  qed
qed

lemma length_join_comma:
  "(\<forall>x \<in> set xs. x \<noteq> []) \<Longrightarrow> length xs \<le> length (join_comma xs)"
  by (induction xs rule: join_comma.induct) (auto simp: Suc_le_eq)

lemma member_text_nonempty: "member_text kv \<noteq> []"
  by (simp add: member_text_def QuoteJSONString_def)

lemma define_properties_distinct:
  assumes "distinct (map fst kvs)"
  shows "define_properties kvs = kvs"
proof -
  have "distinct (map fst (acc @ kvs)) \<Longrightarrow>
        foldl (\<lambda>obj kv. AList.update (fst kv) (snd kv) obj) acc kvs = acc @ kvs" for acc
  proof (induction kvs arbitrary: acc)
    case Nil
    then show ?case by simp
  next
    case (Cons kv kvs)
    have "fst kv \<notin> fst ` set acc" using Cons.prems by auto
    then have "AList.update (fst kv) (snd kv) acc = acc @ [kv]"
      by (induction acc) auto
    moreover have "distinct (map fst ((acc @ [kv]) @ kvs))" using Cons.prems by simp
    ultimately show ?case using Cons.IH[of "acc @ [kv]"] by simp
  qed
  from this[of "[]"] assms show ?thesis by (simp add: define_properties_def)
qed

lemma JSON_parse_stringify:
  assumes "distinct (map fst obj)"
  shows "JSON_parse (JSON_stringify obj) = Some (JsonObject obj)"
proof (cases obj)
  case Nil
  then show ?thesis by (simp add: JSON_parse_def JSON_stringify_def skip_ws_def is_ws_def)
next
  case (Cons kv kvs)
  let ?body = "join_comma (map member_text obj)"
  obtain cs where hd: "member_text kv = CHR 0x22 # cs" using member_text_hd by blast
  have body_hd: "\<exists>bs. ?body = CHR 0x22 # bs"
    using Cons hd by (cases kvs) simp_all
  then obtain bs where bs: "?body = CHR 0x22 # bs" by blast
  have len: "length obj \<le> length (JSON_stringify obj)"
    using length_join_comma[of "map member_text obj"]
    by (simp add: JSON_stringify_def member_text_nonempty)
  have pm: "parse_members (length (JSON_stringify obj)) (?body @ CHR ''}'' # []) = Some (obj, [])"
    using Cons len by (intro parse_members_text) simp_all
  have tx: "JSON_stringify obj = CHR ''{'' # (?body @ [CHR ''}''])"
    by (simp add: JSON_stringify_def)
  have sk1: "skip_ws (JSON_stringify obj) = CHR ''{'' # (?body @ [CHR ''}''])"
    by (simp add: tx skip_ws_def is_ws_def)
  have sk2: "skip_ws (?body @ [CHR ''}'']) = CHR 0x22 # (bs @ [CHR ''}''])"
    by (simp add: bs skip_ws_def is_ws_def)
  have pm': "parse_members (length (JSON_stringify obj)) (CHR 0x22 # (bs @ [CHR ''}''])) = Some (obj, [])"
    using pm bs by simp
  show ?thesis
    unfolding JSON_parse_def sk1
    by (simp add: sk2 pm' define_properties_distinct[OF assms]) (simp add: skip_ws_def)
qed

lemma distinct_object_of: "distinct (map fst (object_of e))"
  by (cases e) simp_all

lemma JSON_parse_event:
  "JSON_parse (JSON_stringify (object_of e)) = Some (JsonObject (object_of e))"
  by (rule JSON_parse_stringify[OF distinct_object_of])

lemma hexdigit_not_nl: "d < 16 \<Longrightarrow> hexdigit d \<noteq> CHR 0x0A"
proof
  assume d: "d < 16" and "hexdigit d = CHR 0x0A"
  then have "(of_char (hexdigit d) :: nat) = 10" by simp
  with d show False by (simp add: hexdigit_def split: if_splits)
qed

lemma escape_char_no_nl: "CHR 0x0A \<notin> set (escape_char c)"
proof (cases "(of_char c :: nat) < 32")
  case True
  then have "(of_char c :: nat) div 16 < 16" by simp
  then have "hexdigit (of_char c div 16) \<noteq> CHR 0x0A" "hexdigit (of_char c mod 16) \<noteq> CHR 0x0A"
    by (simp_all add: hexdigit_not_nl)
  then show ?thesis by (auto simp: escape_char_def)
next
  case False
  then have "c \<noteq> CHR 0x0A" by auto
  then show ?thesis using False by (auto simp: escape_char_def)
qed

lemma Quote_no_nl: "CHR 0x0A \<notin> set (QuoteJSONString s)"
  using escape_char_no_nl by (auto simp: QuoteJSONString_def)

lemma digits_no_nl: "CHR 0x0A \<notin> set (digits n)"
  using digits_all[of n] by (auto simp: is_digit_def)

lemma Serialize_no_nl: "CHR 0x0A \<notin> set (SerializeJSONProperty v)"
  by (cases v) (simp_all add: Quote_no_nl NumberToString_def digits_no_nl)

lemma member_text_no_nl: "CHR 0x0A \<notin> set (member_text kv)"
  by (simp add: member_text_def Quote_no_nl Serialize_no_nl)

lemma join_comma_no_nl:
  "(\<forall>x \<in> set xs. CHR 0x0A \<notin> set x) \<Longrightarrow> CHR 0x0A \<notin> set (join_comma xs)"
  by (induction xs rule: join_comma.induct) simp_all

lemma JSON_stringify_no_nl: "CHR 0x0A \<notin> set (JSON_stringify obj)"
  using join_comma_no_nl[of "map member_text obj"]
  by (simp add: JSON_stringify_def member_text_no_nl)

lemma split_newline_line:
  "CHR 0x0A \<notin> set l \<Longrightarrow> split_newline (l @ CHR 0x0A # rest) = l # split_newline rest"
  by (induction l) auto

lemma split_newline_frame:
  "CHR 0x0A \<notin> set d \<Longrightarrow>
   split_newline (sse_frame d @ rest) = (''data: '' @ d) # [] # split_newline rest"
proof -
  assume d: "CHR 0x0A \<notin> set d"
  have "CHR 0x0A \<notin> set (''data: '' @ d)" using d by simp
  from split_newline_line[OF this, of "CHR 0x0A # rest"]
  have "split_newline (sse_frame d @ rest) = (''data: '' @ d) # split_newline (CHR 0x0A # rest)"
    by (simp add: sse_frame_def)
  then show ?thesis by simp
qed

lemma on_line_empty: "on_line [] st = st"
  by (simp add: on_line_def startsWith_def)

lemma JSON_stringify_not_DONE: "JSON_stringify obj \<noteq> ''[DONE]''"
  by (simp add: JSON_stringify_def)

lemma on_line_data:
  assumes "distinct (map fst obj)"
  shows "on_line (''data: '' @ JSON_stringify obj) st = dispatch (JsonObject obj) st"
  by (simp add: on_line_def startsWith_def JSON_stringify_not_DONE JSON_parse_stringify[OF assms])

lemma fold_on_line_frames:
  "fold on_line (split_newline (concat (map event_frame es) @ rest)) st =
   fold on_line (split_newline rest) (fold (\<lambda>e. dispatch (JsonObject (object_of e))) es st)"
proof (induction es arbitrary: st)
  case Nil
  then show ?case by simp
next
  case (Cons e es)
  have "split_newline (concat (map event_frame (e # es)) @ rest) =
        (''data: '' @ JSON_stringify (object_of e)) # [] #
          split_newline (concat (map event_frame es) @ rest)"
    using split_newline_frame[OF JSON_stringify_no_nl, of "object_of e"]
    by (simp add: event_frame_def)
  then show ?case
    by (simp only: fold.simps o_apply on_line_data[OF distinct_object_of] on_line_empty Cons.IH)
qed

lemma on_chunk_frames:
  "on_chunk (concat (map event_frame es)) st =
   fold (\<lambda>e. dispatch (JsonObject (object_of e))) es st"
  using fold_on_line_frames[of es "[]" st] by (simp add: on_chunk_def on_line_empty)

lemma read_loop_aligned:
  "read_loop (map (\<lambda>es. concat (map event_frame es)) ess) st =
   fold (\<lambda>e. dispatch (JsonObject (object_of e))) (concat ess) st"
  unfolding read_loop_def
  by (induction ess arbitrary: st) (simp_all add: on_chunk_frames)

lemma received_dispatch: "received (dispatch ev st) = received st @ [ev]"
  by (cases ev) (simp_all add: dispatch_def Let_def)

lemma received_fold_dispatch:
  "received (fold (\<lambda>e. dispatch (f e)) es st) = received st @ map f es"
  by (induction es arbitrary: st) (simp_all add: received_dispatch)

section \<open>What the start callback leaves behind\<close>

lemma sources_ok_loop_body:
  assumes "shape n s" "sources_ok n s" "loop_cond s" "\<not> enqueue_throws s"
  shows "sources_ok n (loop_body s)"
  using assms(3)
proof (cases s rule: loop_body_cases)
  case (rejects k t)
  with assms(2) show ?thesis by (simp add: sources_ok_def)
next
  case (finished k g)
  with assms(2) show ?thesis by (simp add: sources_ok_def)
next
  case (yields k g v)
  note D = shapeD[OF assms(1)]
  from D(3)[OF yields(1)] D(4)[OF yields(1)] have "g < n" by simp
  with assms(2) yields(2) show ?thesis by (simp add: sources_ok_def issue_next_fields)
next
  case (throws k g v)
  with assms(4) show ?thesis by simp
qed

lemma sources_ok_initial: "sources_ok (length gens) (initial_state gens sched c)"
  by (simp add: sources_ok_def initial_state_eq)

lemma enqueued_Next [simp]: "enqueued (map Next xs) = []"
  by (induction xs) simp_all

lemma forwarded_Next [simp]: "forwarded i (map Next xs) = []"
  by (simp add: forwarded_def)

lemma budget_ok_initial: "budget_ok c (initial_state gens sched c)"
  by (simp add: budget_ok_def initial_state_eq split: option.splits)

lemma budget_ok_loop_body:
  assumes "budget_ok c s" "loop_cond s" "\<not> enqueue_throws s"
  shows "budget_ok c (loop_body s)"
  using assms(2)
proof (cases s rule: loop_body_cases)
  case (rejects k t)
  with assms(1) show ?thesis by (auto simp: budget_ok_def split: option.splits)
next
  case (finished k g)
  with assms(1) show ?thesis by (auto simp: budget_ok_def split: option.splits)
next
  case (yields k g v)
  with assms(1) show ?thesis
    by (auto simp: budget_ok_def issue_next_fields split: option.splits)
next
  case (throws k g v)
  with assms(3) show ?thesis by simp
qed

lemma run_ok_initial: "run_ok gens c (initial_state gens sched c)"
  by (simp add: run_ok_def Inv_initial sources_ok_initial budget_ok_initial)

lemma run_ok_loop_body:
  assumes "run_ok G c s" "loop_cond s"
  shows "run_ok G c (loop_body s)"
proof -
  from assms(2) have cn: "caught s = None" by (simp add: loop_cond_def)
  then have "\<not> broken G c s" by (auto simp: broken_def)
  with assms(1) have inv: "Inv G s" "sources_ok (length G) s" "budget_ok c s"
    by (simp_all add: run_ok_def)
  from inv(1) have sh: "shape (length G) s" by (simp add: Inv_def)
  show ?thesis
  proof (cases "enqueue_throws s")
    case False
    show ?thesis
      unfolding run_ok_def
      using Inv_loop_body[OF inv(1) assms(2) False]
        sources_ok_loop_body[OF sh inv(2) assms(2) False]
        budget_ok_loop_body[OF inv(3) assms(2) False]
      by simp
  next
    case True
    from assms(2) show ?thesis
    proof (cases s rule: loop_body_cases)
      case (rejects k t)
      with True show ?thesis by simp
    next
      case (finished k g)
      with True show ?thesis by simp
    next
      case (yields k g v)
      with True show ?thesis by simp
    next
      case (throws k g v)
      from shapeD(4)[OF sh throws(1)] have "g = k" .
      with throws inv cn have "broken G c (loop_body s)"
        unfolding broken_def by (intro exI[of _ s] exI[of _ g] exI[of _ v]) simp
      then show ?thesis by (simp add: run_ok_def)
    qed
  qed
qed

lemma run_ok_shape:
  assumes "run_ok G c s"
  shows "shape (length G) s"
proof -
  have "shape (length G) s" if "broken G c s"
  proof -
    from that obtain s0 g v where s0: "Inv G s0"
      "s = s0\<lparr>trace := trace s0 @ [Received g (Value v), EnqueueThrows],
              caught := Some InvalidState, schedule := tl (schedule s0)\<rparr>"
      unfolding broken_def by blast
    from s0(1) have "shape (length G) s0" by (simp add: Inv_def)
    then show ?thesis unfolding s0(2) shape_def keys_def by simp
  qed
  with assms show ?thesis by (auto simp: run_ok_def Inv_def)
qed

lemma cut_prefix: "cut g = map Yield xs @ r \<Longrightarrow> prefix xs (yielded g)"
proof (induction xs arbitrary: g)
  case Nil
  then show ?case by simp
next
  case (Cons x xs)
  then show ?case by (cases g rule: cut.cases) auto
qed

lemma budget_spent:
  assumes "budget_ok c s"
  shows "cancel s = Some 0 \<longleftrightarrow> c = Some (length (enqueued (trace s)))"
    and "cancel s = Some 1 \<longleftrightarrow> c = Some (length (enqueued (trace s)) + 1)"
    and "cancel s \<noteq> Some 0 \<and> cancel s \<noteq> Some 1 \<longleftrightarrow>
         stays_open c (length (enqueued (trace s)) + 2)"
  using assms by (auto simp: budget_ok_def stays_open_def split: option.splits)

lemma while_loop_end:
  obtains
    (ended) s body where
      "while_loop (initial_state gens sched c) = Some s" "caught s = None"
      "trace s = map Next [0..<length gens] @ body" "loop_trace body"
      "\<forall>p \<in> set (received_values body). fst p < length gens"
      "\<forall>i<length gens. throws (gens ! i) = None"
      "\<forall>i<length gens. forwarded i body = yielded (gens ! i)"
      "\<forall>i<length gens. Received i Done \<in> set body"
      "budget_ok c s"
  | (rejected) s body t where
      "while_loop (initial_state gens sched c) = Some s" "caught s = Some t"
      "trace s = map Next [0..<length gens] @ body" "loop_trace body"
      "\<forall>p \<in> set (received_values body). fst p < length gens"
      "\<exists>i<length gens. throws (gens ! i) = Some t"
      "\<forall>i<length gens. prefix (forwarded i body) (yielded (gens ! i))"
      "budget_ok c s"
  | (thrown) s body g v where
      "while_loop (initial_state gens sched c) = Some s" "caught s = Some InvalidState"
      "cancel s = Some 0"
      "trace s = map Next [0..<length gens] @ body @ [Received g (Value v), EnqueueThrows]"
      "loop_trace body"
      "\<forall>p \<in> set (received_values body). fst p < length gens"
      "g < length gens"
      "prefix (forwarded g body @ [v]) (yielded (gens ! g))"
      "\<forall>i<length gens. prefix (forwarded i body) (yielded (gens ! i))"
      "c = Some (length (enqueued body))"
proof -
  let ?n = "length gens"
  from while_loop_terminates[OF shape_initial] obtain s
    where s: "while_loop (initial_state gens sched c) = Some s" by blast
  have ok: "run_ok gens c s"
    using s run_ok_initial[of gens c sched] unfolding while_loop_def
    by (rule while_option_rule[where P = "run_ok gens c", rotated]) (rule run_ok_loop_body)
  have stop: "\<not> loop_cond s" using s unfolding while_loop_def by (rule while_option_stop)
  have pre: "\<forall>i<?n. prefix (forwarded i body) (yielded (gens ! i))"
    if "conserved gens s'" "trace s' = map Next [0..<?n] @ body" for s' body
  proof (intro allI impI)
    fix i assume "i < ?n"
    with that have "cut (gens ! i) = map Yield (forwarded i body) @
        pending_steps (map_of (pendingPromises s') i) (generators s' ! i)"
      by (simp add: conserved_def)
    then show "prefix (forwarded i body) (yielded (gens ! i))" by (rule cut_prefix)
  qed
  show thesis
  proof (cases "broken gens c s")
    case False
    with ok have inv: "shape ?n s" "conserved gens s" "trace_ok ?n s" "counts_ok ?n s"
      "caught_ok gens s" "sources_ok ?n s" "budget_ok c s"
      by (simp_all add: run_ok_def Inv_def)
    from inv(3) obtain body where body: "trace s = map Next [0..<?n] @ body" "loop_trace body"
      unfolding trace_ok_def by blast
    have src: "\<forall>p \<in> set (received_values body). fst p < ?n"
      using inv(6) body(1) by (simp add: sources_ok_def)
    show thesis
    proof (cases "caught s")
      case None
      with stop have empty: "pendingPromises s = []" by (simp add: loop_cond_def)
      have c: "cut (gens ! i) = map Yield (forwarded i body)" if "i < ?n" for i
        using inv(2) that empty body(1) by (simp add: conserved_def)
      have "throws (gens ! i) = None \<and> yielded (gens ! i) = forwarded i body" if "i < ?n" for i
        using cut_eq_D[of "gens ! i" "forwarded i body" "[]"] c[OF that] by simp
      moreover have "Received i Done \<in> set body" if "i < ?n" for i
      proof -
        from inv(4) that empty have "Received i Done \<in> set (trace s)"
          by (simp add: counts_ok_def keys_def)
        then show ?thesis by (auto simp: body(1))
      qed
      ultimately show thesis
        using s None body src inv(7) by (intro ended[of s body]) simp_all
    next
      case (Some t)
      have "\<exists>i<?n. throws (gens ! i) = Some t"
        using inv(5) Some by (simp add: caught_ok_def)
      then show thesis
        using s Some body src inv(7) pre[OF inv(2) body(1)]
        by (intro rejected[of s t body]) simp_all
    qed
  next
    case True
    then obtain s0 g v where s0: "Inv gens s0" "sources_ok ?n s0" "budget_ok c s0"
      "(g, Resolves (g, Value v)) \<in> set (pendingPromises s0)" "cancel s0 = Some 0"
      "s = s0\<lparr>trace := trace s0 @ [Received g (Value v), EnqueueThrows],
              caught := Some InvalidState, schedule := tl (schedule s0)\<rparr>"
      unfolding broken_def by blast
    from s0(1) have inv: "shape ?n s0" "conserved gens s0" "trace_ok ?n s0"
      by (simp_all add: Inv_def)
    from inv(3) obtain body where body: "trace s0 = map Next [0..<?n] @ body" "loop_trace body"
      unfolding trace_ok_def by blast
    have src: "\<forall>p \<in> set (received_values body). fst p < ?n"
      using s0(2) body(1) by (simp add: sources_ok_def)
    have g: "g < ?n" using shapeD(3)[OF inv(1) s0(4)] .
    have "map_of (pendingPromises s0) g = Some (Resolves (g, Value v))"
      using shape_map_of[OF inv(1) s0(4)] .
    with inv(2) g body(1) have "cut (gens ! g) =
        map Yield (forwarded g body @ [v]) @ cut (generators s0 ! g)"
      by (simp add: conserved_def)
    then have pg: "prefix (forwarded g body @ [v]) (yielded (gens ! g))" by (rule cut_prefix)
    have c: "c = Some (length (enqueued body))"
      using budget_spent(1)[OF s0(3)] s0(5) body(1) by simp
    show thesis
      using s s0(5,6) body src g pg pre[OF inv(2) body(1)] c
      by (intro thrown[of s body g v]) simp_all
  qed
qed

lemma finish_ended:
  assumes "caught s = None"
  shows "trace (catch_block (try_end frame s)) =
         trace s @ (if cancel s = Some 0 then [EnqueueThrows, EnqueueThrows]
                    else if cancel s = Some 1 then [Enqueue frame, CloseThrows, EnqueueThrows]
                    else [Enqueue frame, Close])"
  using assms
  by (auto simp: catch_block_def try_end_def controller_enqueue_def controller_close_def Let_def
      split: option.splits)

lemma finish_caught:
  assumes "caught s = Some t"
  shows "trace (catch_block (try_end frame s)) =
         trace s @ (if cancel s = Some 0 then [EnqueueThrows]
                    else if cancel s = Some 1 then [Enqueue (error_frame t), CloseThrows]
                    else [Enqueue (error_frame t), Close])"
  using assms
  by (auto simp: catch_block_def try_end_def controller_enqueue_def controller_close_def Let_def
      split: option.splits)

lemma enqueued_loop_trace:
  "loop_trace body \<Longrightarrow> enqueued body = map (\<lambda>p. event_frame (snd p)) (received_values body)"
  by (induction body rule: loop_trace.induct) simp_all

lemma loop_trace_block:
  "loop_trace body \<Longrightarrow> (i, v) \<in> set (received_values body) \<Longrightarrow>
   \<exists>a b. body = a @ [Received i (Value v), Enqueue (event_frame v), Next i] @ b \<and> loop_trace a"
proof (induction body rule: loop_trace.induct)
  case 1
  then show ?case by simp
next
  case (2 g g' as)
  then obtain a b where "as = a @ [Received i (Value v), Enqueue (event_frame v), Next i] @ b"
    "loop_trace a" by auto
  then have "Received g Done # Delete g' # as =
      (Received g Done # Delete g' # a) @ [Received i (Value v), Enqueue (event_frame v), Next i] @ b"
    "loop_trace (Received g Done # Delete g' # a)"
    using 2(2) by simp_all
  then show ?case by blast
next
  case (3 g w f g' as)
  show ?case
  proof (cases "(i, v) = (g, w)")
    case True
    with 3(2) have "Received g (Value w) # Enqueue f # Next g' # as =
        [] @ [Received i (Value v), Enqueue (event_frame v), Next i] @ as"
      by simp
    then show ?thesis using loop_trace.simps(1) by blast
  next
    case False
    with 3 obtain a b where "as = a @ [Received i (Value v), Enqueue (event_frame v), Next i] @ b"
      "loop_trace a" by auto
    then have "Received g (Value w) # Enqueue f # Next g' # as =
        (Received g (Value w) # Enqueue f # Next g' # a) @
          [Received i (Value v), Enqueue (event_frame v), Next i] @ b"
      "loop_trace (Received g (Value w) # Enqueue f # Next g' # a)"
      using 3(2) by simp_all
    then show ?thesis by blast
  qed
qed simp_all

text \<open>The number of frames of a run, against the number of events of the generators.\<close>

lemma length_by_source:
  "\<forall>p \<in> set xs. fst p < (n::nat) \<Longrightarrow>
   length xs = (\<Sum>i<n. length (filter (\<lambda>p. fst p = i) xs))"
proof (induction xs)
  case Nil
  then show ?case by simp
next
  case (Cons x xs)
  then have x: "fst x < n" and ih: "length xs = (\<Sum>i<n. length (filter (\<lambda>p. fst p = i) xs))"
    by simp_all
  have "(\<Sum>i<n. length (filter (\<lambda>p. fst p = i) (x # xs))) =
        (\<Sum>i<n. (if fst x = i then 1 else 0) + length (filter (\<lambda>p. fst p = i) xs))"
    by (intro sum.cong) simp_all
  also have "\<dots> = (\<Sum>i<n. if fst x = i then 1 else 0) + length xs"
    by (simp add: sum.distrib ih)
  also have "(\<Sum>i<n. if fst x = i then 1 else (0::nat)) = 1"
    using x by (simp add: sum.delta')
  finally show ?case by simp
qed

lemma events_in_sum: "events_in gens = (\<Sum>i<length gens. length (yielded (gens ! i)))"
proof -
  have "sum_list (map f gens) = (\<Sum>i<length gens. f (gens ! i))" for f :: "'a AsyncGenerator \<Rightarrow> nat"
    by (simp add: sum_list_sum_nth atLeast0LessThan)
  then show ?thesis by (simp add: events_in_def)
qed

lemma frames_sum:
  assumes "loop_trace body" "\<forall>p \<in> set (received_values body). fst p < n"
  shows "length (enqueued body) = (\<Sum>i<n. length (forwarded i body))"
  using length_by_source[OF assms(2)]
  by (simp add: enqueued_loop_trace[OF assms(1)] forwarded_def)

lemma frames_all:
  assumes "loop_trace body" "\<forall>p \<in> set (received_values body). fst p < length gens"
    "\<forall>i<length gens. forwarded i body = yielded (gens ! i)"
  shows "length (enqueued body) = events_in gens"
  using assms(3) by (simp add: frames_sum[OF assms(1,2)] events_in_sum)

lemma frames_le:
  assumes "loop_trace body" "\<forall>p \<in> set (received_values body). fst p < length gens"
    "\<forall>i<length gens. prefix (forwarded i body) (yielded (gens ! i))"
  shows "length (enqueued body) \<le> events_in gens"
  unfolding frames_sum[OF assms(1,2)] events_in_sum
  using assms(3) by (intro sum_mono) (simp add: prefix_length_le)

lemma frames_less:
  assumes "loop_trace body" "\<forall>p \<in> set (received_values body). fst p < length gens"
    "\<forall>i<length gens. prefix (forwarded i body) (yielded (gens ! i))"
    "g < length gens" "prefix (forwarded g body @ [v]) (yielded (gens ! g))"
  shows "length (enqueued body) < events_in gens"
  unfolding frames_sum[OF assms(1,2)] events_in_sum
proof (rule sum_strict_mono_ex1)
  show "\<forall>i\<in>{..<length gens}. length (forwarded i body) \<le> length (yielded (gens ! i))"
    using assms(3) by (simp add: prefix_length_le)
  have "length (forwarded g body @ [v]) \<le> length (yielded (gens ! g))"
    using assms(5) by (rule prefix_length_le)
  then show "\<exists>i\<in>{..<length gens}. length (forwarded i body) < length (yielded (gens ! i))"
    using assms(4) by (intro bexI[of _ g]) simp_all
qed simp

text \<open>Every way a run can end.\<close>

lemma start_run:
  obtains
    (completed) body tail where
      "start gens sched c now =
         Some (map Next [0..<length gens] @ body @
               Enqueue (event_frame (CompleteEvent now)) # tail)"
      "loop_trace body"
      "\<forall>p \<in> set (received_values body). fst p < length gens"
      "\<forall>i<length gens. throws (gens ! i) = None"
      "\<forall>i<length gens. forwarded i body = yielded (gens ! i)"
      "\<forall>i<length gens. Received i Done \<in> set body"
      "stays_open c (events_in gens + 1)"
      "(stays_open c (events_in gens + 2) \<and> tail = [Close]) \<or>
       (c = Some (events_in gens + 1) \<and> tail = [CloseThrows, EnqueueThrows])"
  | (complete_throws) body where
      "start gens sched c now =
         Some (map Next [0..<length gens] @ body @ [EnqueueThrows, EnqueueThrows])"
      "loop_trace body"
      "\<forall>p \<in> set (received_values body). fst p < length gens"
      "\<forall>i<length gens. throws (gens ! i) = None"
      "\<forall>i<length gens. forwarded i body = yielded (gens ! i)"
      "\<forall>i<length gens. Received i Done \<in> set body"
      "c = Some (events_in gens)"
  | (failed) body t tail where
      "start gens sched c now = Some (map Next [0..<length gens] @ body @ tail)"
      "loop_trace body"
      "\<forall>p \<in> set (received_values body). fst p < length gens"
      "\<exists>i<length gens. throws (gens ! i) = Some t"
      "\<forall>i<length gens. prefix (forwarded i body) (yielded (gens ! i))"
      "(stays_open c (length (enqueued body) + 2) \<and> tail = [Enqueue (error_frame t), Close]) \<or>
       (c = Some (length (enqueued body) + 1) \<and> tail = [Enqueue (error_frame t), CloseThrows]) \<or>
       (c = Some (length (enqueued body)) \<and> tail = [EnqueueThrows])"
  | (cancelled) body g v where
      "start gens sched c now =
         Some (map Next [0..<length gens] @ body @
               [Received g (Value v), EnqueueThrows, EnqueueThrows])"
      "loop_trace body"
      "\<forall>p \<in> set (received_values body). fst p < length gens"
      "\<forall>i<length gens. prefix (forwarded i body) (yielded (gens ! i))"
      "c = Some (length (enqueued body))"
      "length (enqueued body) < events_in gens"
proof (cases rule: while_loop_end[of gens sched c])
  case (ended s body)
  let ?f = "event_frame (CompleteEvent now)"
  have L: "length (enqueued (trace s)) = events_in gens"
    using frames_all[OF ended(4,5,7)] ended(3) by simp
  note B = budget_spent[OF ended(9), unfolded L]
  have st: "start gens sched c now =
      Some (trace s @ (if cancel s = Some 0 then [EnqueueThrows, EnqueueThrows]
                       else if cancel s = Some 1 then [Enqueue ?f, CloseThrows, EnqueueThrows]
                       else [Enqueue ?f, Close]))"
    using ended(1) finish_ended[OF ended(2), of ?f] by (simp add: start_def)
  show ?thesis
  proof (cases "cancel s = Some 0")
    case True
    with st B(1) ended show ?thesis by (intro complete_throws[of body]) simp_all
  next
    case False
    have open1: "stays_open c (events_in gens + 1)"
      using False L ended(9) by (auto simp: budget_ok_def stays_open_def split: option.splits)
    show ?thesis
    proof (cases "cancel s = Some 1")
      case True
      with st B(2) ended open1 show ?thesis
        by (intro completed[of body "[CloseThrows, EnqueueThrows]"]) simp_all
    next
      case one: False
      with False B(3) have "stays_open c (events_in gens + 2)" by simp
      with st False one ended open1 show ?thesis
        by (intro completed[of body "[Close]"]) simp_all
    qed
  qed
next
  case (rejected s body t)
  have L: "length (enqueued (trace s)) = length (enqueued body)"
    using rejected(3) by simp
  note B = budget_spent[OF rejected(8), unfolded L]
  have st: "start gens sched c now =
      Some (trace s @ (if cancel s = Some 0 then [EnqueueThrows]
                       else if cancel s = Some 1 then [Enqueue (error_frame t), CloseThrows]
                       else [Enqueue (error_frame t), Close]))"
    using rejected(1) finish_caught[OF rejected(2), of "event_frame (CompleteEvent now)"]
    by (simp add: start_def)
  show ?thesis
  proof (cases "cancel s = Some 0")
    case True
    with st B(1) rejected show ?thesis by (intro failed[of body "[EnqueueThrows]" t]) simp_all
  next
    case False
    show ?thesis
    proof (cases "cancel s = Some 1")
      case True
      with st B(2) rejected show ?thesis
        by (intro failed[of body "[Enqueue (error_frame t), CloseThrows]" t]) simp_all
    next
      case one: False
      with False B(3) have "stays_open c (length (enqueued body) + 2)" by simp
      with st False one rejected show ?thesis
        by (intro failed[of body "[Enqueue (error_frame t), Close]" t]) simp_all
    qed
  qed
next
  case (thrown s body g v)
  have "start gens sched c now = Some (trace s @ [EnqueueThrows])"
    using thrown(1,3) finish_caught[OF thrown(2), of "event_frame (CompleteEvent now)"]
    by (simp add: start_def)
  moreover have "length (enqueued body) < events_in gens"
    using frames_less[OF thrown(5,6,9,7,8)] .
  ultimately show ?thesis
    using thrown by (intro cancelled[of body g v]) simp_all
qed

section \<open>Frames and events\<close>

lemma JSON_stringify_inj:
  assumes "distinct (map fst a)" "distinct (map fst b)" "JSON_stringify a = JSON_stringify b"
  shows "a = b"
proof -
  have 1: "JSON_parse (JSON_stringify b) = Some (JsonObject a)"
    using JSON_parse_stringify[OF assms(1)] unfolding assms(3) .
  have 2: "JSON_parse (JSON_stringify b) = Some (JsonObject b)"
    by (rule JSON_parse_stringify[OF assms(2)])
  from 1 2 have "Some (JsonObject a) = Some (JsonObject b)" by (rule trans[OF sym])
  then show ?thesis by simp
qed

lemma sse_frame_inj: "sse_frame a = sse_frame b \<Longrightarrow> a = b"
  by (simp add: sse_frame_def)

lemma object_of_inj: "object_of a = object_of b \<Longrightarrow> a = b"
  by (cases a; cases b) simp_all

lemma event_frame_inj: "event_frame a = event_frame b \<Longrightarrow> a = b"
  unfolding event_frame_def
  using JSON_stringify_inj[OF distinct_object_of distinct_object_of] sse_frame_inj object_of_inj
  by blast

lemma error_frame_not_event: "error_frame t \<noteq> event_frame v"
proof
  assume "error_frame t = event_frame v"
  then have "JSON_stringify [(''type'', Str ''error''), (''error'', Str (error_message t))] =
             JSON_stringify (object_of v)"
    unfolding error_frame_def event_frame_def by (rule sse_frame_inj)
  then have "[(''type'', Str ''error''), (''error'', Str (error_message t))] = object_of v"
    by (intro JSON_stringify_inj distinct_object_of) simp_all
  then show False by (cases v) simp_all
qed

lemma on_chunk_frame:
  assumes "distinct (map fst obj)"
  shows "on_chunk (sse_frame (JSON_stringify obj)) st = dispatch (JsonObject obj) st"
proof -
  have "split_newline (sse_frame (JSON_stringify obj) @ []) =
        (''data: '' @ JSON_stringify obj) # [] # split_newline []"
    by (rule split_newline_frame[OF JSON_stringify_no_nl])
  then have "split_newline (sse_frame (JSON_stringify obj)) = [''data: '' @ JSON_stringify obj, [], []]"
    by simp
  then show ?thesis
    by (simp only: on_chunk_def fold.simps o_apply on_line_data[OF assms] on_line_empty id_apply)
qed

lemma object_of_fields:
  "map_of (object_of v) ''type'' \<noteq> None"
  "map_of (object_of v) ''timestamp'' \<noteq> None"
  "map_of (object_of v) ''job'' = None \<longleftrightarrow> map_of (object_of v) ''type'' = Some (Str ''complete'')"
  by (cases v; simp)+

section \<open>The generators of POST\<close>

lemma yielded_append: "yielded (map Yield xs @ g) = xs @ yielded g"
  by (induction xs) simp_all

lemma throws_append: "throws (map Yield xs @ g) = throws g"
  by (induction xs) simp_all

lemma on_event_not_complete: "v \<in> set (on_event k ev ts) \<Longrightarrow> v \<noteq> CompleteEvent c"
  by (cases ev) auto

lemma for_await_not_complete: "v \<in> set (yielded (for_await stream k)) \<Longrightarrow> v \<noteq> CompleteEvent c"
  by (induction stream k rule: for_await.induct)
    (auto simp: yielded_append dest: on_event_not_complete)

lemma for_await_yields_item:
  "Item ev ts \<in> set (reached stream) \<Longrightarrow>
   set (on_event k ev ts) \<subseteq> set (yielded (for_await stream k))"
  by (induction stream k rule: for_await.induct) (auto simp: yielded_append)

lemma count_on_event:
  "count_list (on_event k ev ts') (ErrorEvent (int k) ''Response failed'' ts) =
     (if ev = response_failed \<and> ts' = ts then 1 else 0)"
  by (cases ev) auto

lemma count_list_append': "count_list (xs @ ys) x = count_list xs x + count_list ys x"
  by (induction xs) simp_all

lemma for_await_count_error:
  "count_list (yielded (for_await stream k)) (ErrorEvent (int k) ''Response failed'' ts) =
   count_list (reached stream) (Item response_failed ts)"
  by (induction stream k rule: for_await.induct)
    (auto simp: yielded_append count_list_append' count_on_event)

lemma length_make_generators: "length (make_generators openai qs) = length qs"
  by (simp add: make_generators_def)

lemma nth_make_generators:
  "i < length qs \<Longrightarrow> make_generators openai qs ! i = for_await (openai i (qs ! i)) i"
  by (simp add: make_generators_def runSingleDeepResearch_def nth_enumerate_eq)

lemma complete_frame_only:
  "event_frame v = event_frame (CompleteEvent t) \<Longrightarrow> v = CompleteEvent t"
  by (rule event_frame_inj)

section \<open>Every instant of a run\<close>

lemma take_loop_trace:
  "loop_trace body \<Longrightarrow> nexts i (take m body) \<le> answers i (take m body)"
proof (induction body arbitrary: m rule: loop_trace.induct)
  case 1
  then show ?case by simp
next
  case (2 g g' as)
  then have "loop_trace as" by simp
  from 2(1)[OF this] show ?case by (auto simp: take_Cons' le_Suc_eq)
next
  case (3 g v f g' as)
  then have "loop_trace as" "g' = g" by simp_all
  from 3(1)[OF this(1), of "m - 3"] this(2) show ?case
    by (auto simp: take_Cons' le_Suc_eq numeral_3_eq_3)
qed simp_all

lemma take_initial_nexts: "nexts i (take m (map Next [0..<n])) \<le> 1"
proof -
  have "take m (map Next [0..<n]) = map Next [0..<min m n]"
    by (simp add: take_map min_def)
  then show ?thesis by (simp add: nexts_Next count_upt)
qed

lemma take_trace_ok:
  assumes "trace_ok n s"
  shows "nexts i (take m (trace s)) \<le> answers i (take m (trace s)) + 1"
proof -
  from assms obtain body where b: "trace s = map Next [0..<n] @ body" "loop_trace body"
    unfolding trace_ok_def by blast
  have "nexts i (take m (trace s)) =
        nexts i (take m (map Next [0..<n])) + nexts i (take (m - n) body)"
    by (simp add: b(1))
  moreover have "answers i (take m (trace s)) = answers i (take (m - n) body)"
    by (simp add: b(1) take_map)
  ultimately show ?thesis
    using take_initial_nexts[of i m n] take_loop_trace[OF b(2), of i "m - n"] by simp
qed

lemma run_ok_loop_step: "run_ok G c s \<Longrightarrow> run_ok G c (loop_step s)"
  by (simp add: loop_step_def run_ok_loop_body)

lemma run_ok_state_after: "run_ok gens c (state_after gens sched c k)"
  unfolding state_after_def
  by (induction k) (simp_all add: run_ok_initial run_ok_loop_step)

lemma keys_loop_step:
  assumes "shape n s"
  shows "set (keys (loop_step s)) \<subseteq> set (keys s) \<and>
         length (pendingPromises (loop_step s)) \<le> length (pendingPromises s)"
proof (cases "loop_cond s")
  case True
  then show ?thesis using keys_loop_body[OF assms] by (simp add: loop_step_def)
next
  case False
  then show ?thesis by (simp add: loop_step_def)
qed

lemma state_after_add:
  "state_after gens sched c (k + j) = (loop_step ^^ j) (state_after gens sched c k)"
  by (simp add: state_after_def funpow_add add.commute)

lemma keys_state_after:
  "set (keys (state_after gens sched c (k + j))) \<subseteq> set (keys (state_after gens sched c k)) \<and>
   length (pendingPromises (state_after gens sched c (k + j))) \<le>
     length (pendingPromises (state_after gens sched c k))"
proof (induction j)
  case 0
  then show ?case by simp
next
  case (Suc j)
  have "shape (length gens) (state_after gens sched c (k + j))"
    using run_ok_state_after[of gens c sched "k + j"] by (rule run_ok_shape)
  from keys_loop_step[OF this] Suc show ?case
    by (simp add: state_after_def) (meson order_trans)
qed

lemma while_loop_state_after:
  "\<exists>K. while_loop (initial_state gens sched c) = Some (state_after gens sched c K) \<and>
       (\<forall>j<K. loop_cond (state_after gens sched c j)) \<and>
       \<not> loop_cond (state_after gens sched c K)"
proof -
  let ?init = "initial_state gens sched c"
  let ?P = "\<lambda>k. \<not> loop_cond ((loop_step ^^ k) ?init)"
  from while_loop_terminates[OF shape_initial] obtain s
    where s: "while_loop ?init = Some s" by blast
  have "while_option loop_cond loop_body ?init = while_option loop_cond loop_step ?init"
    by (rule while_option_cong) (simp add: loop_step_def)
  with s have w: "while_option loop_cond loop_step ?init = Some s"
    by (simp add: while_loop_def)
  then have ex: "\<exists>k. ?P k"
    unfolding while_option_def by (auto split: if_splits)
  with w have r: "s = (loop_step ^^ (LEAST k. ?P k)) ?init"
    unfolding while_option_def by simp
  have "?P (LEAST k. ?P k)" using ex by (rule LeastI_ex)
  moreover have "\<not> ?P j" if "j < (LEAST k. ?P k)" for j
    using that by (rule not_less_Least)
  ultimately show ?thesis
    using s r unfolding state_after_def by (intro exI[of _ "LEAST k. ?P k"]) auto
qed

lemma nexts_take_broken: "nexts i (take m [Received g r, EnqueueThrows]) = 0"
  by (cases m; simp add: take_Cons')

lemma run_ok_facts:
  assumes "run_ok G c s"
  shows "distinct (keys s)"
    and "EnqueueThrows \<notin> set (trace s) \<Longrightarrow>
           \<forall>i<length G. nexts i (trace s) =
              answers i (trace s) + (if i \<in> set (keys s) then 1 else 0)"
    and "\<forall>i<length G. i \<in> set (keys s) \<longleftrightarrow> Received i Done \<notin> set (trace s)"
    and "\<exists>body tail. trace s = map Next [0..<length G] @ body @ tail \<and> loop_trace body \<and>
           (tail = [] \<or> (\<exists>g v. tail = [Received g (Value v), EnqueueThrows]))"
    and "\<forall>i m. nexts i (take m (trace s)) \<le> answers i (take m (trace s)) + 1"
proof -
  let ?n = "length G"
  show "distinct (keys s)"
    using shapeD(2)[OF run_ok_shape[OF assms]] by (simp add: keys_def)
  consider (whole) "Inv G s" | (cut) "broken G c s"
    using assms by (auto simp: run_ok_def)
  then have "(EnqueueThrows \<notin> set (trace s) \<longrightarrow>
           (\<forall>i<?n. nexts i (trace s) =
              answers i (trace s) + (if i \<in> set (keys s) then 1 else 0))) \<and>
      (\<forall>i<?n. i \<in> set (keys s) \<longleftrightarrow> Received i Done \<notin> set (trace s)) \<and>
      (\<exists>body tail. trace s = map Next [0..<?n] @ body @ tail \<and> loop_trace body \<and>
           (tail = [] \<or> (\<exists>g v. tail = [Received g (Value v), EnqueueThrows]))) \<and>
      (\<forall>i m. nexts i (take m (trace s)) \<le> answers i (take m (trace s)) + 1)"
  proof cases
    case whole
    then have inv: "trace_ok ?n s" "counts_ok ?n s" by (simp_all add: Inv_def)
    from inv(1) obtain body where "trace s = map Next [0..<?n] @ body @ []" "loop_trace body"
      unfolding trace_ok_def by auto
    then have "\<exists>body tail. trace s = map Next [0..<?n] @ body @ tail \<and> loop_trace body \<and>
           (tail = [] \<or> (\<exists>g v. tail = [Received g (Value v), EnqueueThrows]))"
      by blast
    then show ?thesis
      using inv(2) take_trace_ok[OF inv(1)] unfolding counts_ok_def by blast
  next
    case cut
    then obtain s0 g v where s0: "Inv G s0"
      "s = s0\<lparr>trace := trace s0 @ [Received g (Value v), EnqueueThrows],
              caught := Some InvalidState, schedule := tl (schedule s0)\<rparr>"
      unfolding broken_def by blast
    from s0(1) have inv: "trace_ok ?n s0" "counts_ok ?n s0" by (simp_all add: Inv_def)
    have tr: "trace s = trace s0 @ [Received g (Value v), EnqueueThrows]"
      and ks: "keys s = keys s0"
      by (simp_all add: s0(2) keys_def)
    from inv(1) obtain body where body: "trace s0 = map Next [0..<?n] @ body" "loop_trace body"
      unfolding trace_ok_def by blast
    have 1: "\<not> EnqueueThrows \<notin> set (trace s)" by (simp add: tr)
    have 2: "\<forall>i<?n. i \<in> set (keys s) \<longleftrightarrow> Received i Done \<notin> set (trace s)"
      using inv(2) by (simp add: counts_ok_def tr ks)
    have 3: "\<exists>body tail. trace s = map Next [0..<?n] @ body @ tail \<and> loop_trace body \<and>
           (tail = [] \<or> (\<exists>g v. tail = [Received g (Value v), EnqueueThrows]))"
      using body by (intro exI[of _ body] exI[of _ "[Received g (Value v), EnqueueThrows]"])
        (simp add: tr)
    have 4: "nexts i (take m (trace s)) \<le> answers i (take m (trace s)) + 1" for i m
    proof -
      have "nexts i (take m (trace s)) = nexts i (take m (trace s0))"
        by (simp add: tr nexts_take_broken)
      moreover have "answers i (take m (trace s0)) \<le> answers i (take m (trace s))"
        by (simp add: tr)
      ultimately show ?thesis using take_trace_ok[OF inv(1), of i m] by simp
    qed
    from 1 2 3 4 show ?thesis by blast
  qed
  then show "EnqueueThrows \<notin> set (trace s) \<Longrightarrow>
           \<forall>i<length G. nexts i (trace s) =
              answers i (trace s) + (if i \<in> set (keys s) then 1 else 0)"
    and "\<forall>i<length G. i \<in> set (keys s) \<longleftrightarrow> Received i Done \<notin> set (trace s)"
    and "\<exists>body tail. trace s = map Next [0..<length G] @ body @ tail \<and> loop_trace body \<and>
           (tail = [] \<or> (\<exists>g v. tail = [Received g (Value v), EnqueueThrows]))"
    and "\<forall>i m. nexts i (take m (trace s)) \<le> answers i (take m (trace s)) + 1"
    by blast+
qed

lemma loop_ends_empty:
  assumes "\<forall>g \<in> set gens. throws g = None" "stays_open c (events_in gens)"
    "while_loop (initial_state gens sched c) = Some s"
  shows "pendingPromises s = [] \<and> caught s = None"
proof (cases rule: while_loop_end[of gens sched c])
  case (ended s' body)
  have "\<not> loop_cond s'" using ended(1) unfolding while_loop_def by (rule while_option_stop)
  with ended(1,2) assms(3) show ?thesis by (simp add: loop_cond_def)
next
  case (rejected s' body t)
  with assms(1) show ?thesis by (metis nth_mem option.distinct(1))
next
  case (thrown s' body g v)
  from frames_less[OF thrown(5,6,9,7,8)] thrown(10) assms(2) show ?thesis
    by (simp add: stays_open_def)
qed

section \<open>The claims about the merge loop\<close>

lemma throws_None_all:
  "(\<forall>g \<in> set gens. throws g = None) \<longleftrightarrow> (\<forall>i<length gens. throws (gens ! i) = None)"
  using nth_mem by (fastforce simp: in_set_conv_nth)

lemma filter_fst_eq: "filter (\<lambda>(j, v). j = i) xs = filter (\<lambda>p. fst p = i) xs"
  by (rule filter_cong) auto

lemma merged_body:
  assumes "loop_trace body" "\<forall>p \<in> set (received_values body). fst p < n"
  shows "enqueued body = map (\<lambda>(i, v). event_frame v) (received_values body)"
    and "\<forall>(i, v) \<in> set (received_values body). i < n"
    and "map snd (filter (\<lambda>(j, v). j = i) (received_values body)) = forwarded i body"
  using assms enqueued_loop_trace[OF assms(1)]
  by (auto simp: case_prod_beta forwarded_def filter_fst_eq)

text \<open>
  C1 (as amended).  In every run, for every list of generators, every schedule and every
  moment at which the consumer cancels: the frames on the stream are the frames of a
  list \<open>merged\<close> of events, each tagged with the generator the race received it from,
  followed by at most one last frame, the \<open>complete\<close> frame or the frame of the \<open>catch\<close>
  block; every tag names one of the generators, and the events tagged \<open>i\<close> are, in the
  order generator \<open>i\<close> yields them, the first events of generator \<open>i\<close>: none twice, none
  out of order.  They are all the events of every generator, followed by the \<open>complete\<close>
  frame, exactly when no generator throws (no \<open>next()\<close> promise rejects) and the consumer
  has not cancelled when the \<open>complete\<close> frame is enqueued.
\<close>

theorem merge_keeps_every_event:
  "\<exists>tr merged rest.
     start gens sched c now = Some tr \<and>
     enqueued tr = map (\<lambda>(i, v). event_frame v) merged @ rest \<and>
     (\<forall>(i, v) \<in> set merged. i < length gens) \<and>
     (\<forall>i<length gens. prefix (map snd (filter (\<lambda>(j, v). j = i) merged)) (yielded (gens ! i))) \<and>
     (rest = [] \<or> rest = [event_frame (CompleteEvent now)] \<or> (\<exists>t. rest = [error_frame t])) \<and>
     ((\<forall>g \<in> set gens. throws g = None) \<and> stays_open c (events_in gens + 1) \<longleftrightarrow>
        rest = [event_frame (CompleteEvent now)] \<and>
        (\<forall>i<length gens. map snd (filter (\<lambda>(j, v). j = i) merged) = yielded (gens ! i)))"
proof (cases rule: start_run[of gens sched c now])
  case (completed body tail)
  note M = merged_body[OF completed(2,3)]
  let ?tr = "map Next [0..<length gens] @ body @ Enqueue (event_frame (CompleteEvent now)) # tail"
  have t: "enqueued tail = []" using completed(8) by auto
  have 1: "enqueued ?tr = map (\<lambda>(i, v). event_frame v) (received_values body) @
      [event_frame (CompleteEvent now)]"
    using M(1) t by simp
  have 2: "\<forall>i<length gens. prefix (map snd (filter (\<lambda>(j, v). j = i) (received_values body)))
      (yielded (gens ! i))"
    using completed(5) by (simp add: M(3))
  have 3: "\<forall>i<length gens. map snd (filter (\<lambda>(j, v). j = i) (received_values body)) =
      yielded (gens ! i)"
    using completed(5) by (simp add: M(3))
  have 4: "\<forall>g \<in> set gens. throws g = None"
    using completed(4) by (simp add: throws_None_all)
  show ?thesis
    by (rule exI[of _ ?tr], rule exI[of _ "received_values body"],
        rule exI[of _ "[event_frame (CompleteEvent now)]"])
      (use completed(1,7) 1 2 3 4 M(2) in blast)
next
  case (complete_throws body)
  note M = merged_body[OF complete_throws(2,3)]
  let ?tr = "map Next [0..<length gens] @ body @ [EnqueueThrows, EnqueueThrows]"
  have 1: "enqueued ?tr = map (\<lambda>(i, v). event_frame v) (received_values body) @ []"
    using M(1) by simp
  have 2: "\<forall>i<length gens. prefix (map snd (filter (\<lambda>(j, v). j = i) (received_values body)))
      (yielded (gens ! i))"
    using complete_throws(5) by (simp add: M(3))
  have 3: "\<not> stays_open c (events_in gens + 1)"
    using complete_throws(7) by (simp add: stays_open_def)
  show ?thesis
    by (rule exI[of _ ?tr], rule exI[of _ "received_values body"], rule exI[of _ "[]"])
      (use complete_throws(1) 1 2 3 M(2) in blast)
next
  case (failed body t tail)
  note M = merged_body[OF failed(2,3)]
  let ?tr = "map Next [0..<length gens] @ body @ tail"
  have e: "enqueued tail = [] \<or> enqueued tail = [error_frame t]" using failed(6) by auto
  have 1: "enqueued ?tr = map (\<lambda>(i, v). event_frame v) (received_values body) @ enqueued tail"
    using M(1) by simp
  have 2: "\<forall>i<length gens. prefix (map snd (filter (\<lambda>(j, v). j = i) (received_values body)))
      (yielded (gens ! i))"
    using failed(5) by (simp add: M(3))
  have 3: "\<not> (\<forall>g \<in> set gens. throws g = None)"
    using failed(4) by (auto simp: throws_None_all)
  have 4: "enqueued tail \<noteq> [event_frame (CompleteEvent now)]"
    using e error_frame_not_event[of t "CompleteEvent now"] by auto
  show ?thesis
    by (rule exI[of _ ?tr], rule exI[of _ "received_values body"], rule exI[of _ "enqueued tail"])
      (use failed(1) e 1 2 3 4 M(2) in blast)
next
  case (cancelled body g v)
  note M = merged_body[OF cancelled(2,3)]
  let ?tr = "map Next [0..<length gens] @ body @ [Received g (Value v), EnqueueThrows, EnqueueThrows]"
  have 1: "enqueued ?tr = map (\<lambda>(i, v). event_frame v) (received_values body) @ []"
    using M(1) by simp
  have 2: "\<forall>i<length gens. prefix (map snd (filter (\<lambda>(j, v). j = i) (received_values body)))
      (yielded (gens ! i))"
    using cancelled(4) by (simp add: M(3))
  have 3: "\<not> stays_open c (events_in gens + 1)"
    using cancelled(5,6) by (simp add: stays_open_def)
  show ?thesis
    by (rule exI[of _ ?tr], rule exI[of _ "received_values body"], rule exI[of _ "[]"])
      (use cancelled(1) 1 2 3 M(2) in blast)
qed

theorem merge_keeps_every_event_witness:
  "throws [Yield (JobDoneEvent 0 1)] = None \<and>
   throws [Yield (ContentEvent 1 ''x'' 2), Yield (JobDoneEvent 1 3)] = None \<and>
   stays_open None
     (events_in [[Yield (JobDoneEvent 0 1)],
                 [Yield (ContentEvent 1 ''x'' 2), Yield (JobDoneEvent 1 3)]] + 1) \<and>
   (\<exists>tr merged.
      start [[Yield (JobDoneEvent 0 1)], [Yield (ContentEvent 1 ''x'' 2), Yield (JobDoneEvent 1 3)]]
        [1, 0] None 9 = Some tr \<and>
      enqueued tr = map (\<lambda>(i, v). event_frame v) merged @ [event_frame (CompleteEvent 9)] \<and>
      (\<forall>(i, v) \<in> set merged. i < (2::nat)) \<and>
      map snd (filter (\<lambda>(j, v). j = 0) merged) = [JobDoneEvent 0 1] \<and>
      map snd (filter (\<lambda>(j, v). j = 1) merged) = [ContentEvent 1 ''x'' 2, JobDoneEvent 1 3])"
proof -
  let ?G = "[[Yield (JobDoneEvent 0 1)], [Yield (ContentEvent 1 ''x'' 2), Yield (JobDoneEvent 1 3)]]"
  have h: "(\<forall>g \<in> set ?G. throws g = None) \<and> stays_open None (events_in ?G + 1)"
    by (simp add: stays_open_def)
  have len: "length ?G = 2" by simp
  from merge_keeps_every_event[of ?G "[1, 0]" None 9] obtain tr merged rest where r:
    "start ?G [1, 0] None 9 = Some tr"
    "enqueued tr = map (\<lambda>(i, v). event_frame v) merged @ rest"
    "\<forall>(i, v) \<in> set merged. i < length ?G"
    "(\<forall>g \<in> set ?G. throws g = None) \<and> stays_open None (events_in ?G + 1) \<longleftrightarrow>
       rest = [event_frame (CompleteEvent 9)] \<and>
       (\<forall>i<length ?G. map snd (filter (\<lambda>(j, v). j = i) merged) = yielded (?G ! i))"
    by blast
  from r(4) h have rest: "rest = [event_frame (CompleteEvent 9)]"
    and all: "\<forall>i<length ?G. map snd (filter (\<lambda>(j, v). j = i) merged) = yielded (?G ! i)"
    by blast+
  have a: "map snd (filter (\<lambda>(j, v). j = 0) merged) = [JobDoneEvent 0 1]"
    using all[rule_format, of 0] by simp
  have b: "map snd (filter (\<lambda>(j, v). j = 1) merged) = [ContentEvent 1 ''x'' 2, JobDoneEvent 1 3]"
    using all[rule_format, of 1] by simp
  have t: "\<forall>(i, v) \<in> set merged. i < (2::nat)" using r(3) unfolding len .
  have "\<exists>tr merged.
      start ?G [1, 0] None 9 = Some tr \<and>
      enqueued tr = map (\<lambda>(i, v). event_frame v) merged @ [event_frame (CompleteEvent 9)] \<and>
      (\<forall>(i, v) \<in> set merged. i < (2::nat)) \<and>
      map snd (filter (\<lambda>(j, v). j = 0) merged) = [JobDoneEvent 0 1] \<and>
      map snd (filter (\<lambda>(j, v). j = 1) merged) = [ContentEvent 1 ''x'' 2, JobDoneEvent 1 3]"
    using r(1) r(2)[unfolded rest] t a b by (intro exI[of _ tr] exI[of _ merged] conjI)
  moreover have "throws [Yield (JobDoneEvent 0 1)] = None"
    "throws [Yield (ContentEvent 1 ''x'' 2), Yield (JobDoneEvent 1 3)] = None"
    by simp_all
  ultimately show ?thesis using h by (intro conjI) simp_all
qed

text \<open>
  The claim C1 as it stands fails in two ways.  When a request is rejected: job 0 yields
  two events, the request of job 1 fails after the first of them has been forwarded, and
  the second event of job 0 never reaches the stream.  When the consumer cancels: the
  only generator yields two events and throws nothing, the consumer cancels after the
  first frame, and the second event never reaches the stream.
\<close>

theorem merge_loses_event_counterexample:
  "yielded (make_generators
      (\<lambda>k q. if k = 0 then [Item (output_text_delta ''a'') 1, Item (output_text_delta ''b'') 2]
              else [StreamThrows (Error ''boom'')]) [Text ''p'', Text ''q''] ! 0) =
     [ContentEvent 0 ''a'' 1, ContentEvent 0 ''b'' 2] \<and>
   POST (Resolves (Object [(''queries'', Array [Text ''p'', Text ''q''])]))
     (\<lambda>k q. if k = 0 then [Item (output_text_delta ''a'') 1, Item (output_text_delta ''b'') 2]
             else [StreamThrows (Error ''boom'')]) [0, 1] None 9 =
     StreamResponse (Some
       [Next 0, Next 1, Received 0 (Value (ContentEvent 0 ''a'' 1)),
        Enqueue (event_frame (ContentEvent 0 ''a'' 1)), Next 0,
        Enqueue (error_frame (Error ''boom'')), Close]) \<and>
   event_frame (ContentEvent 0 ''b'' 2) \<notin>
     set [event_frame (ContentEvent 0 ''a'' 1), error_frame (Error ''boom'')] \<and>
   throws [Yield (ContentEvent 0 ''a'' 1), Yield (ContentEvent 0 ''b'' 2)] = None \<and>
   start [[Yield (ContentEvent 0 ''a'' 1), Yield (ContentEvent 0 ''b'' 2)]] [] (Some 1) 9 =
     Some [Next 0, Received 0 (Value (ContentEvent 0 ''a'' 1)),
           Enqueue (event_frame (ContentEvent 0 ''a'' 1)), Next 0,
           Received 0 (Value (ContentEvent 0 ''b'' 2)), EnqueueThrows, EnqueueThrows] \<and>
   event_frame (ContentEvent 0 ''b'' 2) \<notin> set [event_frame (ContentEvent 0 ''a'' 1)]"
  by code_simp

text \<open>
  C2 (as amended).  At every point of a run (after any number \<open>k\<close> of turns of the loop,
  under any schedule, whenever the consumer cancels): the keys of \<open>pendingPromises\<close> are
  distinct; as long as no call of \<open>controller.enqueue\<close> has thrown, a generator in the map
  has exactly one request that the loop has not yet received the result of, and a
  generator outside it has none; a generator is in the map exactly as long as it has not
  reported done; the trace is the first requests followed by whole turns, in each of
  which the next request comes right after the frame of the received event was enqueued,
  and, when \<open>controller.enqueue\<close> has thrown, by the turn that was broken off there; at no
  instant, also inside a turn, has a generator more than one request outstanding; the
  key set never grows afterwards, so a removed generator is not put back; and the loop
  ends after some number \<open>K\<close> of turns, the map being non-empty before every one of them,
  with the map empty or with something thrown: a rejection, or the \<open>TypeError\<close> of a
  cancelled stream.  Provided no generator throws and the consumer has not cancelled
  when the last event is enqueued, it ends with the map empty and nothing thrown.
\<close>

theorem one_pending_promise_per_generator:
  "distinct (keys (state_after gens sched c k)) \<and>
   (EnqueueThrows \<notin> set (trace (state_after gens sched c k)) \<longrightarrow>
    (\<forall>i<length gens.
       nexts i (trace (state_after gens sched c k)) =
       answers i (trace (state_after gens sched c k)) +
         (if i \<in> set (keys (state_after gens sched c k)) then 1 else 0))) \<and>
   (\<forall>i<length gens.
      i \<in> set (keys (state_after gens sched c k)) \<longleftrightarrow>
      Received i Done \<notin> set (trace (state_after gens sched c k))) \<and>
   (\<exists>body tail. trace (state_after gens sched c k) = map Next [0..<length gens] @ body @ tail \<and>
           loop_trace body \<and>
           (tail = [] \<or> (\<exists>g v. tail = [Received g (Value v), EnqueueThrows]))) \<and>
   (\<forall>i m. nexts i (take m (trace (state_after gens sched c k))) \<le>
          answers i (take m (trace (state_after gens sched c k))) + 1) \<and>
   (\<forall>j. set (keys (state_after gens sched c (k + j))) \<subseteq> set (keys (state_after gens sched c k)) \<and>
        length (pendingPromises (state_after gens sched c (k + j))) \<le>
          length (pendingPromises (state_after gens sched c k))) \<and>
   (\<exists>K. while_loop (initial_state gens sched c) = Some (state_after gens sched c K) \<and>
        (\<forall>j<K. pendingPromises (state_after gens sched c j) \<noteq> [] \<and>
               caught (state_after gens sched c j) = None) \<and>
        (pendingPromises (state_after gens sched c K) = [] \<or>
         (\<exists>t. caught (state_after gens sched c K) = Some t \<and>
              (t = InvalidState \<or> (\<exists>g \<in> set gens. throws g = Some t)))) \<and>
        ((\<forall>g \<in> set gens. throws g = None) \<and> stays_open c (events_in gens) \<longrightarrow>
         pendingPromises (state_after gens sched c K) = [] \<and>
         caught (state_after gens sched c K) = None))"
proof -
  let ?s = "state_after gens sched c k"
  note F = run_ok_facts[OF run_ok_state_after[of gens c sched k]]
  have 6: "\<forall>j. set (keys (state_after gens sched c (k + j))) \<subseteq> set (keys ?s) \<and>
        length (pendingPromises (state_after gens sched c (k + j))) \<le> length (pendingPromises ?s)"
    using keys_state_after[of gens sched c k] by blast
  from while_loop_state_after[of gens sched c] obtain K where K:
    "while_loop (initial_state gens sched c) = Some (state_after gens sched c K)"
    "\<forall>j<K. loop_cond (state_after gens sched c j)"
    "\<not> loop_cond (state_after gens sched c K)"
    by blast
  let ?e = "state_after gens sched c K"
  have 7: "pendingPromises ?e = [] \<or>
      (\<exists>t. caught ?e = Some t \<and> (t = InvalidState \<or> (\<exists>g \<in> set gens. throws g = Some t)))"
  proof (cases rule: while_loop_end[of gens sched c])
    case (ended s body)
    with K(1,3) show ?thesis by (simp add: loop_cond_def)
  next
    case (rejected s body t)
    from rejected(6) have "\<exists>g \<in> set gens. throws g = Some t" by (meson nth_mem)
    with rejected(1,2) K(1) show ?thesis by simp
  next
    case (thrown s body g v)
    with K(1) show ?thesis by simp
  qed
  have 8: "(\<forall>g \<in> set gens. throws g = None) \<and> stays_open c (events_in gens) \<longrightarrow>
      pendingPromises ?e = [] \<and> caught ?e = None"
    using loop_ends_empty[OF _ _ K(1)] by blast
  have "\<exists>K. while_loop (initial_state gens sched c) = Some (state_after gens sched c K) \<and>
        (\<forall>j<K. pendingPromises (state_after gens sched c j) \<noteq> [] \<and>
               caught (state_after gens sched c j) = None) \<and>
        (pendingPromises (state_after gens sched c K) = [] \<or>
         (\<exists>t. caught (state_after gens sched c K) = Some t \<and>
              (t = InvalidState \<or> (\<exists>g \<in> set gens. throws g = Some t)))) \<and>
        ((\<forall>g \<in> set gens. throws g = None) \<and> stays_open c (events_in gens) \<longrightarrow>
         pendingPromises (state_after gens sched c K) = [] \<and>
         caught (state_after gens sched c K) = None)"
    using K(1,2) 7 8 by (intro exI[of _ K]) (simp add: loop_cond_def)
  with F 6 show ?thesis by blast
qed

theorem one_pending_promise_per_generator_witness:
  "keys (state_after [[Yield (JobDoneEvent 0 1)], []] [1, 0] None 1) = [0] \<and>
   trace (state_after [[Yield (JobDoneEvent 0 1)], []] [1, 0] None 1) =
     [Next 0, Next 1, Received 1 Done, Delete 1] \<and>
   EnqueueThrows \<notin> set (trace (state_after [[Yield (JobDoneEvent 0 1)], []] [1, 0] None 1)) \<and>
   nexts 0 (trace (state_after [[Yield (JobDoneEvent 0 1)], []] [1, 0] None 1)) =
     answers 0 (trace (state_after [[Yield (JobDoneEvent 0 1)], []] [1, 0] None 1)) + 1 \<and>
   nexts 1 (trace (state_after [[Yield (JobDoneEvent 0 1)], []] [1, 0] None 1)) =
     answers 1 (trace (state_after [[Yield (JobDoneEvent 0 1)], []] [1, 0] None 1)) \<and>
   Received 1 Done \<in> set (trace (state_after [[Yield (JobDoneEvent 0 1)], []] [1, 0] None 1)) \<and>
   Received 0 Done \<notin> set (trace (state_after [[Yield (JobDoneEvent 0 1)], []] [1, 0] None 1))"
proof -
  define S where "S = state_after [[Yield (JobDoneEvent 0 1)], []] [1, 0] None 1"
  have k: "keys S = [0]"
    unfolding S_def by code_simp
  have t: "trace S = [Next 0, Next 1, Received 1 Done, Delete 1]"
    unfolding S_def by code_simp
  have g: "EnqueueThrows \<notin> set (trace S)" by (simp add: t)
  note th = one_pending_promise_per_generator[of "[[Yield (JobDoneEvent 0 1)], []]" "[1, 0]" None 1,
      folded S_def]
  note c2 = th[THEN conjunct2, THEN conjunct1, rule_format, OF g]
  note c3 = th[THEN conjunct2, THEN conjunct2, THEN conjunct1, rule_format]
  have "nexts 0 (trace S) = answers 0 (trace S) + 1" using c2[of 0] by (simp add: k)
  moreover have "nexts 1 (trace S) = answers 1 (trace S)" using c2[of 1] by (simp add: k)
  moreover have "Received 1 Done \<in> set (trace S)" using c3[of 1] by (simp add: k)
  moreover have "Received 0 Done \<notin> set (trace S)" using c3[of 0] by (simp add: k)
  ultimately show ?thesis
    unfolding S_def[symmetric] using k t g by blast
qed

text \<open>
  The last part of the claim C2 as it stands fails in two ways.  When a request is
  rejected: the request of job 1 fails and wins the first race; the loop is left with
  both generators still in the map.  When the consumer cancels: no generator throws,
  the consumer has cancelled before the first frame; the loop is left at its first turn
  with the generator still in the map.
\<close>

theorem loop_left_nonempty_counterexample:
  "while_loop (initial_state [[Yield (JobDoneEvent 0 1)], [Throw (Error ''boom'')]] [1] None) =
     Some (state_after [[Yield (JobDoneEvent 0 1)], [Throw (Error ''boom'')]] [1] None 1) \<and>
   keys (state_after [[Yield (JobDoneEvent 0 1)], [Throw (Error ''boom'')]] [1] None 1) = [0, 1] \<and>
   caught (state_after [[Yield (JobDoneEvent 0 1)], [Throw (Error ''boom'')]] [1] None 1) =
     Some (Error ''boom'') \<and>
   start [[Yield (JobDoneEvent 0 1)], [Throw (Error ''boom'')]] [1] None 9 =
     Some [Next 0, Next 1, Enqueue (error_frame (Error ''boom'')), Close] \<and>
   throws [Yield (JobDoneEvent 0 1)] = None \<and>
   while_loop (initial_state [[Yield (JobDoneEvent 0 1)]] [] (Some 0)) =
     Some (state_after [[Yield (JobDoneEvent 0 1)]] [] (Some 0) 1) \<and>
   keys (state_after [[Yield (JobDoneEvent 0 1)]] [] (Some 0) 1) = [0] \<and>
   caught (state_after [[Yield (JobDoneEvent 0 1)]] [] (Some 0) 1) = Some InvalidState \<and>
   start [[Yield (JobDoneEvent 0 1)]] [] (Some 0) 9 =
     Some [Next 0, Received 0 (Value (JobDoneEvent 0 1)), EnqueueThrows, EnqueueThrows]"
  by code_simp

lemma make_generators_set:
  assumes "g \<in> set (make_generators openai qs)"
  obtains i where "i < length qs" "g = for_await (openai i (qs ! i)) i"
proof -
  from assms obtain i where "i < length (make_generators openai qs)"
    "g = make_generators openai qs ! i"
    by (auto simp: in_set_conv_nth)
  then show thesis using that by (simp add: length_make_generators nth_make_generators)
qed

lemma forwarded_mem:
  "v \<in> set (forwarded i body) \<longleftrightarrow> (i, v) \<in> set (received_values body)"
  by (force simp: forwarded_def)

lemma enqueued_loop_trace_mem:
  assumes "loop_trace body" "f \<in> set (enqueued body)"
  obtains i v where "(i, v) \<in> set (received_values body)" "f = event_frame v"
  using assms by (auto simp: enqueued_loop_trace)

lemma no_complete_in_body:
  assumes "loop_trace body"
    "\<forall>p \<in> set (received_values body). fst p < length qs"
    "\<forall>i<length qs. prefix (forwarded i body) (yielded (make_generators openai qs ! i))"
  shows "event_frame (CompleteEvent t) \<notin> set (enqueued body)"
proof
  assume "event_frame (CompleteEvent t) \<in> set (enqueued body)"
  with assms(1) obtain i v where iv: "(i, v) \<in> set (received_values body)"
    "event_frame (CompleteEvent t) = event_frame v"
    by (rule enqueued_loop_trace_mem)
  from iv(2) have "event_frame v = event_frame (CompleteEvent t)" by simp
  then obtain t' where v: "v = CompleteEvent t'" using complete_frame_only by blast
  from assms(2) iv(1) have i: "i < length qs" by auto
  from iv(1) have "v \<in> set (forwarded i body)" by (simp add: forwarded_mem)
  then have "v \<in> set (yielded (make_generators openai qs ! i))"
    using assms(3) i set_mono_prefix by blast
  then have "v \<in> set (yielded (for_await (openai i (qs ! i)) i))"
    using i by (simp add: nth_make_generators)
  with v show False using for_await_not_complete by blast
qed


text \<open>
  C4 (as amended).  In a run of the generators of POST, a \<open>complete\<close> frame is enqueued
  exactly when no generator throws (no \<open>next()\<close> promise rejects) and the consumer has not
  cancelled by then.  In that case the trace is the first requests, then whole turns of
  the loop, then the \<open>complete\<close> frame: no frame enqueued before it is a \<open>complete\<close> frame
  and none is enqueued after it, and every generator has reported done before.  In every
  other run no \<open>complete\<close> frame is enqueued at all.
\<close>

theorem complete_once_and_last:
  "\<exists>tr. start (make_generators openai qs) sched c now = Some tr \<and>
     (if (\<forall>g \<in> set (make_generators openai qs). throws g = None) \<and>
         stays_open c (events_in (make_generators openai qs) + 1)
      then \<exists>body tail.
             tr = map Next [0..<length qs] @ body @
                  Enqueue (event_frame (CompleteEvent now)) # tail \<and>
             loop_trace body \<and>
             (\<forall>t. event_frame (CompleteEvent t) \<notin> set (enqueued body)) \<and>
             enqueued tail = [] \<and>
             (\<forall>i<length qs. Received i Done \<in> set body)
      else \<forall>t. event_frame (CompleteEvent t) \<notin> set (enqueued tr))"
proof -
  let ?G = "make_generators openai qs"
  have len: "length ?G = length qs" by (rule length_make_generators)
  have neg: ?thesis
    if "start ?G sched c now = Some tr"
      "\<not> ((\<forall>g \<in> set ?G. throws g = None) \<and> stays_open c (events_in ?G + 1))"
      "\<forall>t. event_frame (CompleteEvent t) \<notin> set (enqueued tr)" for tr
    by (intro exI[of _ tr] conjI that(1)) (simp only: if_not_P[OF that(2)], rule that(3))
  show ?thesis
  proof (cases rule: start_run[of ?G sched c now])
    case (completed body tail)
    have p: "(\<forall>g \<in> set ?G. throws g = None) \<and> stays_open c (events_in ?G + 1)"
      using completed(4,7) by (simp add: throws_None_all)
    have "\<forall>i<length qs. prefix (forwarded i body) (yielded (?G ! i))"
      using completed(5) by (simp add: len)
    then have nc: "\<forall>t. event_frame (CompleteEvent t) \<notin> set (enqueued body)"
      using no_complete_in_body[of body qs openai] completed(2,3) by (simp add: len)
    have t: "enqueued tail = []" using completed(8) by auto
    define tr where
      "tr = map Next [0..<length qs] @ body @ Enqueue (event_frame (CompleteEvent now)) # tail"
    have st: "start ?G sched c now = Some tr"
      using completed(1) by (simp add: len tr_def)
    have ex: "\<exists>body tail.
             tr = map Next [0..<length qs] @ body @
                  Enqueue (event_frame (CompleteEvent now)) # tail \<and>
             loop_trace body \<and>
             (\<forall>t. event_frame (CompleteEvent t) \<notin> set (enqueued body)) \<and>
             enqueued tail = [] \<and>
             (\<forall>i<length qs. Received i Done \<in> set body)"
      using completed(2,6) nc t unfolding tr_def
      by (intro exI[of _ body] exI[of _ tail]) (simp add: len)
    show ?thesis
    proof (intro exI[of _ tr] conjI)
      show "start ?G sched c now = Some tr" by (rule st)
      show "if (\<forall>g \<in> set ?G. throws g = None) \<and> stays_open c (events_in ?G + 1)
        then \<exists>body tail.
             tr = map Next [0..<length qs] @ body @
                  Enqueue (event_frame (CompleteEvent now)) # tail \<and>
             loop_trace body \<and>
             (\<forall>t. event_frame (CompleteEvent t) \<notin> set (enqueued body)) \<and>
             enqueued tail = [] \<and>
             (\<forall>i<length qs. Received i Done \<in> set body)
        else \<forall>t. event_frame (CompleteEvent t) \<notin> set (enqueued tr)"
        using ex by (simp only: if_P[OF p])
    qed
  next
    case (complete_throws body)
    have p: "\<not> stays_open c (events_in ?G + 1)"
      using complete_throws(7) by (simp add: stays_open_def)
    have "\<forall>i<length qs. prefix (forwarded i body) (yielded (?G ! i))"
      using complete_throws(5) by (simp add: len)
    then have "\<forall>t. event_frame (CompleteEvent t) \<notin> set (enqueued body)"
      using no_complete_in_body[of body qs openai] complete_throws(2,3) by (simp add: len)
    then have "\<forall>t. event_frame (CompleteEvent t) \<notin>
        set (enqueued (map Next [0..<length ?G] @ body @ [EnqueueThrows, EnqueueThrows]))"
      by simp
    with p show ?thesis by (intro neg[OF complete_throws(1)]) simp_all
  next
    case (failed body t tail)
    have p: "\<not> (\<forall>g \<in> set ?G. throws g = None)"
      using failed(4) by (auto simp: throws_None_all)
    have "\<forall>i<length qs. prefix (forwarded i body) (yielded (?G ! i))"
      using failed(5) by (simp add: len)
    then have nc: "\<forall>t. event_frame (CompleteEvent t) \<notin> set (enqueued body)"
      using no_complete_in_body[of body qs openai] failed(2,3) by (simp add: len)
    have "set (enqueued tail) \<subseteq> {error_frame t}" using failed(6) by auto
    then have "\<forall>t'. event_frame (CompleteEvent t') \<notin> set (enqueued tail)"
      using error_frame_not_event[of t] by (metis empty_iff insert_iff subsetD)
    with nc have "\<forall>t. event_frame (CompleteEvent t) \<notin>
        set (enqueued (map Next [0..<length ?G] @ body @ tail))"
      by simp
    with p show ?thesis by (intro neg[OF failed(1)]) simp_all
  next
    case (cancelled body g v)
    have p: "\<not> stays_open c (events_in ?G + 1)"
      using cancelled(5,6) by (simp add: stays_open_def)
    have "\<forall>i<length qs. prefix (forwarded i body) (yielded (?G ! i))"
      using cancelled(4) by (simp add: len)
    then have "\<forall>t. event_frame (CompleteEvent t) \<notin> set (enqueued body)"
      using no_complete_in_body[of body qs openai] cancelled(2,3) by (simp add: len)
    then have "\<forall>t. event_frame (CompleteEvent t) \<notin>
        set (enqueued (map Next [0..<length ?G] @ body @
                       [Received g (Value v), EnqueueThrows, EnqueueThrows]))"
      by simp
    with p show ?thesis by (intro neg[OF cancelled(1)]) simp_all
  qed
qed

theorem complete_once_and_last_witness:
  "throws (make_generators (\<lambda>k q. [Item response_completed 5]) [Text ''a''] ! 0) = None \<and>
   stays_open (Some 2) (events_in (make_generators (\<lambda>k q. [Item response_completed 5]) [Text ''a'']) + 1) \<and>
   (\<exists>body tail.
      start (make_generators (\<lambda>k q. [Item response_completed 5]) [Text ''a'']) [] (Some 2) 9 =
        Some (map Next [0..<1] @ body @ Enqueue (event_frame (CompleteEvent 9)) # tail) \<and>
      loop_trace body \<and> enqueued tail = [] \<and> Received 0 Done \<in> set body)"
proof -
  let ?G = "make_generators (\<lambda>k q. [Item response_completed 5]) [Text ''a'']"
  have h: "(\<forall>g \<in> set ?G. throws g = None) \<and> stays_open (Some 2) (events_in ?G + 1)"
    by code_simp
  from complete_once_and_last[of "\<lambda>k q. [Item response_completed 5]" "[Text ''a'']" "[]" "Some 2" 9] h
  obtain body tail where
    "start ?G [] (Some 2) 9 =
        Some (map Next [0..<length [Text ''a'']] @ body @
              Enqueue (event_frame (CompleteEvent 9)) # tail)"
    "loop_trace body" "enqueued tail = []" "\<forall>i<length [Text ''a'']. Received i Done \<in> set body"
    by auto
  then have "\<exists>body tail. start ?G [] (Some 2) 9 =
        Some (map Next [0..<1] @ body @ Enqueue (event_frame (CompleteEvent 9)) # tail) \<and>
      loop_trace body \<and> enqueued tail = [] \<and> Received 0 Done \<in> set body"
    by (intro exI[of _ body] exI[of _ tail]) simp
  moreover have "throws (?G ! 0) = None" by code_simp
  ultimately show ?thesis using h by blast
qed

text \<open>
  The claim C4 as it stands fails in two ways.  When a request is rejected: the only
  job's request fails, the stream gets the one frame of the \<open>catch\<close> block and is closed,
  and no \<open>complete\<close> frame is enqueued.  When the consumer cancels: the only generator ends
  at once and throws nothing, the consumer has cancelled, and both the call that would
  enqueue the \<open>complete\<close> frame and the one of the \<open>catch\<close> block throw.
\<close>

theorem no_complete_counterexample:
  "POST (Resolves (Object [(''query'', Text ''q'')])) (\<lambda>k q. [StreamThrows (Error ''boom'')])
     [] None 9 =
     StreamResponse (Some [Next 0, Enqueue (error_frame (Error ''boom'')), Close]) \<and>
   event_frame (CompleteEvent 9) \<notin>
     set (enqueued [Next 0, Enqueue (error_frame (Error ''boom'')), Close]) \<and>
   throws (make_generators (\<lambda>k q. []) [Text ''q''] ! 0) = None \<and>
   POST (Resolves (Object [(''query'', Text ''q'')])) (\<lambda>k q. []) [] (Some 0) 9 =
     StreamResponse (Some [Next 0, Received 0 Done, Delete 0, EnqueueThrows, EnqueueThrows]) \<and>
   enqueued [Next 0, Received 0 Done, Delete 0, EnqueueThrows, EnqueueThrows] = []"
  by code_simp

lemma answered_Next [simp]: "answered (map Next xs @ r) = answered r"
  by (induction xs) simp_all

lemma answered_loop_trace: "loop_trace body \<Longrightarrow> answered tail \<Longrightarrow> answered (body @ tail)"
  by (induction body rule: loop_trace.induct) (simp_all add: follows_def)

lemma answered_tl:
  assumes "answered (x # xs)"
  shows "answered xs"
proof (cases x)
  case (Received i r)
  with assms show ?thesis by (cases r) simp_all
qed (use assms in simp_all)

lemma follows_iff:
  "follows i v b \<longleftrightarrow>
   (\<exists>b'. b = Enqueue (event_frame v) # Next i # b') \<or> (\<exists>b'. b = EnqueueThrows # b')"
proof -
  have "take 2 b = [x, y] \<longleftrightarrow> (\<exists>b'. b = x # y # b')" for x y :: action
    by (cases b; cases "tl b") (auto simp: numeral_2_eq_2)
  moreover have "take 1 b = [x] \<longleftrightarrow> (\<exists>b'. b = x # b')" for x :: action
    by (cases b) auto
  ultimately show ?thesis by (simp add: follows_def)
qed

lemma answered_received:
  "answered tr \<Longrightarrow> tr = a @ Received i (Value v) # b \<Longrightarrow> follows i v b"
proof (induction a arbitrary: tr)
  case Nil
  then show ?case by simp
next
  case (Cons x a)
  from Cons.prems have "answered (a @ Received i (Value v) # b)"
    using answered_tl by auto
  then show ?case by (rule Cons.IH) simp
qed

lemma start_answered:
  assumes "start gens sched c now = Some tr"
  shows "answered tr"
proof (cases rule: start_run[of gens sched c now])
  case (completed body tail)
  from completed(8) have "answered (Enqueue (event_frame (CompleteEvent now)) # tail)"
    by (auto simp: follows_def)
  from answered_loop_trace[OF completed(2) this] completed(1) assms show ?thesis by simp
next
  case (complete_throws body)
  have "answered [EnqueueThrows, EnqueueThrows]" by simp
  from answered_loop_trace[OF complete_throws(2) this] complete_throws(1) assms
  show ?thesis by simp
next
  case (failed body t tail)
  from failed(6) have "answered tail" by auto
  from answered_loop_trace[OF failed(2) this] failed(1) assms show ?thesis by simp
next
  case (cancelled body g v)
  have "answered [Received g (Value v), EnqueueThrows, EnqueueThrows]"
    by (simp add: follows_def)
  from answered_loop_trace[OF cancelled(2) this] cancelled(1) assms show ?thesis by simp
qed

text \<open>
  C5 (as amended).  A \<open>response.failed\<close> event that the generator of a job gets to
  makes it yield exactly one \<open>error\<close> event for that job (the generator yields this
  \<open>error\<close> event as often as it gets to such an event).  In every run, whenever the loop
  receives that event it enqueues its frame and then calls \<open>next()\<close> on the same generator
  again, unless the call of \<open>controller.enqueue\<close> throws.  Provided no generator throws
  (no \<open>next()\<close> promise rejects) and the consumer has not cancelled when the \<open>complete\<close>
  frame is enqueued, the loop does receive that event and forward it, and the \<open>complete\<close>
  frame is the last frame of the run.
\<close>

theorem failed_response_is_forwarded:
  assumes "i < length qs"
    and "Item response_failed ts \<in> set (reached (openai i (qs ! i)))"
  shows "on_event i response_failed ts = [ErrorEvent (int i) ''Response failed'' ts] \<and>
         count_list (yielded (make_generators openai qs ! i))
             (ErrorEvent (int i) ''Response failed'' ts) =
           count_list (reached (openai i (qs ! i))) (Item response_failed ts) \<and>
         (\<exists>tr. start (make_generators openai qs) sched c now = Some tr \<and>
            (\<forall>a b. tr = a @ Received i (Value (ErrorEvent (int i) ''Response failed'' ts)) # b \<longrightarrow>
               (\<exists>b'. b = Enqueue (event_frame (ErrorEvent (int i) ''Response failed'' ts)) #
                         Next i # b') \<or>
               (\<exists>b'. b = EnqueueThrows # b')) \<and>
            ((\<forall>g \<in> set (make_generators openai qs). throws g = None) \<and>
             stays_open c (events_in (make_generators openai qs) + 1) \<longrightarrow>
               (\<exists>a b tail.
                  tr = a @ [Received i (Value (ErrorEvent (int i) ''Response failed'' ts)),
                            Enqueue (event_frame (ErrorEvent (int i) ''Response failed'' ts)),
                            Next i] @ b @
                       Enqueue (event_frame (CompleteEvent now)) # tail \<and>
                  enqueued tail = [])))"
proof -
  let ?G = "make_generators openai qs"
  let ?e = "ErrorEvent (int i) ''Response failed'' ts"
  have gi: "?G ! i = for_await (openai i (qs ! i)) i"
    using assms(1) by (rule nth_make_generators)
  have ey: "?e \<in> set (yielded (?G ! i))"
    using for_await_yields_item[OF assms(2), of i] gi by simp
  have cnt: "count_list (yielded (?G ! i)) ?e =
      count_list (reached (openai i (qs ! i))) (Item response_failed ts)"
    using for_await_count_error[of "openai i (qs ! i)" i ts] gi by simp
  obtain tr where tr: "start ?G sched c now = Some tr"
    using while_loop_terminates[OF shape_initial, of ?G sched c]
    by (auto simp: start_def)
  have rec: "\<forall>a b. tr = a @ Received i (Value ?e) # b \<longrightarrow>
      (\<exists>b'. b = Enqueue (event_frame ?e) # Next i # b') \<or> (\<exists>b'. b = EnqueueThrows # b')"
    using answered_received[OF start_answered[OF tr]] follows_iff by blast
  have fin: "\<exists>a b tail. tr = a @ [Received i (Value ?e), Enqueue (event_frame ?e), Next i] @ b @
        Enqueue (event_frame (CompleteEvent now)) # tail \<and> enqueued tail = []"
    if p: "(\<forall>g \<in> set ?G. throws g = None) \<and> stays_open c (events_in ?G + 1)"
  proof (cases rule: start_run[of ?G sched c now])
    case (completed body tail)
    have "(i, ?e) \<in> set (received_values body)"
      using completed(5) assms(1) ey by (simp add: length_make_generators forwarded_mem[symmetric])
    from loop_trace_block[OF completed(2) this] obtain a b' where
      "body = a @ [Received i (Value ?e), Enqueue (event_frame ?e), Next i] @ b'"
      by blast
    with completed(1) tr have "tr = (map Next [0..<length ?G] @ a) @
        [Received i (Value ?e), Enqueue (event_frame ?e), Next i] @ b' @
        Enqueue (event_frame (CompleteEvent now)) # tail"
      by simp
    moreover have "enqueued tail = []" using completed(8) by auto
    ultimately show ?thesis by blast
  next
    case (complete_throws body)
    with p show ?thesis by (simp add: stays_open_def)
  next
    case (failed body t tail)
    with p show ?thesis by (metis nth_mem option.distinct(1))
  next
    case (cancelled body g v)
    with p show ?thesis by (simp add: stays_open_def)
  qed
  have "\<exists>tr. start ?G sched c now = Some tr \<and>
      (\<forall>a b. tr = a @ Received i (Value ?e) # b \<longrightarrow>
        (\<exists>b'. b = Enqueue (event_frame ?e) # Next i # b') \<or> (\<exists>b'. b = EnqueueThrows # b')) \<and>
      ((\<forall>g \<in> set ?G. throws g = None) \<and> stays_open c (events_in ?G + 1) \<longrightarrow>
        (\<exists>a b tail. tr = a @ [Received i (Value ?e), Enqueue (event_frame ?e), Next i] @ b @
            Enqueue (event_frame (CompleteEvent now)) # tail \<and> enqueued tail = []))"
    using tr rec fin by (intro exI[of _ tr]) blast
  moreover have "on_event i response_failed ts = [?e]" by simp
  ultimately show ?thesis using cnt by blast
qed

theorem failed_response_is_forwarded_witness:
  "(0::nat) < length [Text ''a''] \<and>
   Item response_failed 5 \<in> set (reached [Item response_failed 5]) \<and>
   throws (make_generators (\<lambda>k q. [Item response_failed 5]) [Text ''a''] ! 0) = None \<and>
   stays_open None (events_in (make_generators (\<lambda>k q. [Item response_failed 5]) [Text ''a'']) + 1) \<and>
   count_list (yielded (make_generators (\<lambda>k q. [Item response_failed 5]) [Text ''a''] ! 0))
     (ErrorEvent 0 ''Response failed'' 5) = 1 \<and>
   (\<exists>a b tail. start (make_generators (\<lambda>k q. [Item response_failed 5]) [Text ''a'']) [] None 9 =
            Some (a @ [Received 0 (Value (ErrorEvent 0 ''Response failed'' 5)),
                       Enqueue (event_frame (ErrorEvent 0 ''Response failed'' 5)),
                       Next 0] @ b @
                  Enqueue (event_frame (CompleteEvent 9)) # tail) \<and>
            enqueued tail = [])"
proof -
  let ?G = "make_generators (\<lambda>k q. [Item response_failed 5]) [Text ''a'']"
  let ?e = "ErrorEvent 0 ''Response failed'' 5"
  have h: "(\<forall>g \<in> set ?G. throws g = None) \<and> stays_open None (events_in ?G + 1)"
    by code_simp
  have i: "(0::nat) < length [Text ''a'']" by simp
  have m: "Item response_failed 5 \<in>
      set (reached ((\<lambda>k q. [Item response_failed 5]) (0::nat) ([Text ''a''] ! 0)))"
    by simp
  have t: "throws (?G ! 0) = None" by code_simp
  note th = failed_response_is_forwarded[OF i m, of "[]" None 9, unfolded of_nat_0]
  from th[THEN conjunct2, THEN conjunct1] have cnt: "count_list (yielded (?G ! 0)) ?e = 1"
    by simp
  from th[THEN conjunct2, THEN conjunct2] obtain tr where tr: "start ?G [] None 9 = Some tr"
    "(\<forall>g \<in> set ?G. throws g = None) \<and> stays_open None (events_in ?G + 1) \<longrightarrow>
       (\<exists>a b tail. tr = a @ [Received 0 (Value ?e), Enqueue (event_frame ?e), Next 0] @ b @
            Enqueue (event_frame (CompleteEvent 9)) # tail \<and> enqueued tail = [])"
    by blast
  from tr(2) h obtain a b tail where
    "tr = a @ [Received 0 (Value ?e), Enqueue (event_frame ?e), Next 0] @ b @
            Enqueue (event_frame (CompleteEvent 9)) # tail" "enqueued tail = []"
    by blast
  with tr(1) have "\<exists>a b tail. start ?G [] None 9 =
      Some (a @ [Received 0 (Value ?e), Enqueue (event_frame ?e), Next 0] @ b @
            Enqueue (event_frame (CompleteEvent 9)) # tail) \<and> enqueued tail = []"
    by blast
  moreover have "Item response_failed 5 \<in> set (reached [Item response_failed 5])" by simp
  moreover have "stays_open None (events_in ?G + 1)" using h by blast
  ultimately show ?thesis using i t cnt by blast
qed

text \<open>
  The claim C5 as it stands fails in three ways.  Job 0 fails in band and its \<open>error\<close>
  event is forwarded, then the request of job 1 is rejected and the run ends with the
  frame of the \<open>catch\<close> block, without \<open>complete\<close>.  With the same jobs and the rejection
  of job 1 winning the first race, the \<open>error\<close> event of job 0 is not even forwarded.
  With one job that fails in band and a consumer that has cancelled, the loop receives
  the \<open>error\<close> event and nothing reaches the stream.
\<close>

theorem failed_then_rejected_counterexample:
  "POST (Resolves (Object [(''queries'', Array [Text ''p'', Text ''q''])]))
     (\<lambda>k q. if k = 0 then [Item response_failed 1] else [StreamThrows (Error ''boom'')])
     [0, 1] None 9 =
     StreamResponse (Some
       [Next 0, Next 1, Received 0 (Value (ErrorEvent 0 ''Response failed'' 1)),
        Enqueue (event_frame (ErrorEvent 0 ''Response failed'' 1)), Next 0,
        Enqueue (error_frame (Error ''boom'')), Close]) \<and>
   event_frame (CompleteEvent 9) \<notin>
     set [event_frame (ErrorEvent 0 ''Response failed'' 1), error_frame (Error ''boom'')] \<and>
   POST (Resolves (Object [(''queries'', Array [Text ''p'', Text ''q''])]))
     (\<lambda>k q. if k = 0 then [Item response_failed 1] else [StreamThrows (Error ''boom'')])
     [1] None 9 =
     StreamResponse (Some [Next 0, Next 1, Enqueue (error_frame (Error ''boom'')), Close]) \<and>
   event_frame (ErrorEvent 0 ''Response failed'' 1) \<notin> set [error_frame (Error ''boom'')] \<and>
   POST (Resolves (Object [(''query'', Text ''p'')])) (\<lambda>k q. [Item response_failed 1])
     [] (Some 0) 9 =
     StreamResponse (Some
       [Next 0, Received 0 (Value (ErrorEvent 0 ''Response failed'' 1)),
        EnqueueThrows, EnqueueThrows])"
  by code_simp




section \<open>Request validation\<close>

lemma start_terminates: "\<exists>tr. start gens sched c now = Some tr"
  using while_loop_terminates[OF shape_initial, of gens sched c] by (auto simp: start_def)

lemma falsy_iff:
  "falsy q \<longleftrightarrow>
   q \<in> {Undefined, Null, Boolean False, Number (Finite 0), Number NaN, Text []}"
  by (cases q) auto

lemma derived_queries_Inl:
  "derived_queries body = Inl error \<Longrightarrow> body = Null \<or> body = Undefined"
  by (cases body) (auto simp: derived_queries_def property_def split: jsvalue.splits)

lemma derived_queries_Inr:
  "derived_queries body = Inr qs \<Longrightarrow>
   body \<noteq> Null \<and> body \<noteq> Undefined \<and> qs = query_list body"
  by (cases body)
    (auto simp: derived_queries_def property_def query_list_def member_def
      split: jsvalue.splits option.splits)

text \<open>
  C9 (as amended).  When \<open>req.json()\<close> rejects, and when the body is \<open>null\<close> (reading
  \<open>body.queries\<close> throws), POST answers with status 500 and the message of what was
  thrown.  For every other body the derived query list is \<open>body.queries\<close> when that is an
  array and otherwise \<open>[body.query]\<close>, and POST answers with the 400 response exactly
  when this list is empty or has a falsy entry: one that is missing, \<open>null\<close>, \<open>false\<close>,
  \<open>0\<close>, \<open>NaN\<close> or the empty string.  That answer depends on nothing but the body: no
  generator is made and no stream is started.  For every body left the answer is the
  streaming response, whose \<open>start\<close> callback runs to its end.
\<close>

theorem POST_validation:
  "POST (Rejects error) openai sched c now =
     JsonResponse 500 (JSON_stringify [(''error'', Str (error_message error))]) \<and>
   (case derived_queries body of
      Inl thrown \<Rightarrow>
        (body = Null \<or> body = Undefined) \<and>
        POST (Resolves body) openai sched c now =
          JsonResponse 500 (JSON_stringify [(''error'', Str (error_message thrown))])
    | Inr qs \<Rightarrow>
        body \<noteq> Null \<and> body \<noteq> Undefined \<and> qs = query_list body \<and>
        (if qs = [] \<or>
            (\<exists>q \<in> set qs.
               q \<in> {Undefined, Null, Boolean False, Number (Finite 0), Number NaN, Text []})
         then POST (Resolves body) openai sched c now =
                JsonResponse 400 (JSON_stringify [(''error'', Str ''Query or queries required'')])
         else \<exists>tr. POST (Resolves body) openai sched c now = StreamResponse (Some tr) \<and>
                  start (make_generators openai qs) sched c now = Some tr))"
proof -
  have 1: "POST (Rejects error) openai sched c now =
     JsonResponse 500 (JSON_stringify [(''error'', Str (error_message error))])"
    by (simp add: POST_def)
  have 2: "case derived_queries body of
      Inl thrown \<Rightarrow>
        (body = Null \<or> body = Undefined) \<and>
        POST (Resolves body) openai sched c now =
          JsonResponse 500 (JSON_stringify [(''error'', Str (error_message thrown))])
    | Inr qs \<Rightarrow>
        body \<noteq> Null \<and> body \<noteq> Undefined \<and> qs = query_list body \<and>
        (if qs = [] \<or>
            (\<exists>q \<in> set qs.
               q \<in> {Undefined, Null, Boolean False, Number (Finite 0), Number NaN, Text []})
         then POST (Resolves body) openai sched c now =
                JsonResponse 400 (JSON_stringify [(''error'', Str ''Query or queries required'')])
         else \<exists>tr. POST (Resolves body) openai sched c now = StreamResponse (Some tr) \<and>
                  start (make_generators openai qs) sched c now = Some tr)"
  proof (cases "derived_queries body")
    case (Inl thrown)
    with derived_queries_Inl[OF Inl] show ?thesis by (simp add: POST_def)
  next
    case (Inr qs)
    note D = derived_queries_Inr[OF Inr]
    have f: "list_ex falsy qs \<longleftrightarrow>
        (\<exists>q \<in> set qs.
           q \<in> {Undefined, Null, Boolean False, Number (Finite 0), Number NaN, Text []})"
      unfolding list_ex_iff falsy_iff ..
    show ?thesis
    proof (cases "qs = [] \<or> list_ex falsy qs")
      case True
      then have "POST (Resolves body) openai sched c now =
          JsonResponse 400 (JSON_stringify [(''error'', Str ''Query or queries required'')])"
        using Inr by (simp add: POST_def)
      with True D show ?thesis unfolding Inr f by simp
    next
      case False
      obtain tr where tr: "start (make_generators openai qs) sched c now = Some tr"
        using start_terminates by blast
      from False have "POST (Resolves body) openai sched c now = StreamResponse (Some tr)"
        using Inr tr by (simp add: POST_def)
      with False D tr show ?thesis unfolding Inr f by simp
    qed
  qed
  from 1 2 show ?thesis by (rule conjI)
qed

theorem POST_validation_witness:
  "POST (Rejects NonError) (\<lambda>k q. []) [] None 0 =
     JsonResponse 500 (JSON_stringify [(''error'', Str ''Unknown error'')]) \<and>
   POST (Resolves (Object [(''queries'', Array [])])) (\<lambda>k q. []) [] None 0 =
     JsonResponse 400 (JSON_stringify [(''error'', Str ''Query or queries required'')]) \<and>
   POST (Resolves (Object [])) (\<lambda>k q. []) [] None 0 =
     JsonResponse 400 (JSON_stringify [(''error'', Str ''Query or queries required'')]) \<and>
   POST (Resolves (Object [(''query'', Text ''x''), (''queries'', Array [Text ''a'', Text ''''])]))
     (\<lambda>k q. []) [] None 0 =
     JsonResponse 400 (JSON_stringify [(''error'', Str ''Query or queries required'')]) \<and>
   (\<exists>tr. POST (Resolves (Object [(''query'', Text ''a'')])) (\<lambda>k q. []) [] None 0 =
           StreamResponse (Some tr)) \<and>
   (\<exists>tr. POST (Resolves (Object [(''queries'', Array [Text ''a''])])) (\<lambda>k q. []) [] None 0 =
           StreamResponse (Some tr) \<and>
         start (make_generators (\<lambda>k q. []) [Text ''a'']) [] None 0 = Some tr)"
proof -
  have d: "derived_queries (Object [(''queries'', Array [])]) = Inr []"
    "derived_queries (Object []) = Inr [Undefined]"
    "derived_queries (Object [(''query'', Text ''x''), (''queries'', Array [Text ''a'', Text ''''])]) =
       Inr [Text ''a'', Text '''']"
    "derived_queries (Object [(''query'', Text ''a'')]) = Inr [Text ''a'']"
    "derived_queries (Object [(''queries'', Array [Text ''a''])]) = Inr [Text ''a'']"
    by (simp_all add: derived_queries_def property_def)
  note th = POST_validation[of NonError "\<lambda>k q. []" "[]" None 0]
  have 0: "POST (Rejects NonError) (\<lambda>k q. []) [] None 0 =
     JsonResponse 500 (JSON_stringify [(''error'', Str ''Unknown error'')])"
    using th[of Null, THEN conjunct1] by (simp add: error_message_def)
  have 1: "POST (Resolves (Object [(''queries'', Array [])])) (\<lambda>k q. []) [] None 0 =
     JsonResponse 400 (JSON_stringify [(''error'', Str ''Query or queries required'')])"
    using th[of "Object [(''queries'', Array [])]", THEN conjunct2] unfolding d by simp
  have 2: "POST (Resolves (Object [])) (\<lambda>k q. []) [] None 0 =
     JsonResponse 400 (JSON_stringify [(''error'', Str ''Query or queries required'')])"
    using th[of "Object []", THEN conjunct2] unfolding d by simp
  have 3: "POST (Resolves (Object [(''query'', Text ''x''), (''queries'', Array [Text ''a'', Text ''''])]))
     (\<lambda>k q. []) [] None 0 =
     JsonResponse 400 (JSON_stringify [(''error'', Str ''Query or queries required'')])"
    using th[of "Object [(''query'', Text ''x''), (''queries'', Array [Text ''a'', Text ''''])]",
        THEN conjunct2]
    unfolding d by simp
  have 4: "\<exists>tr. POST (Resolves (Object [(''query'', Text ''a'')])) (\<lambda>k q. []) [] None 0 =
           StreamResponse (Some tr)"
    using th[of "Object [(''query'', Text ''a'')]", THEN conjunct2] unfolding d by auto
  have 5: "\<exists>tr. POST (Resolves (Object [(''queries'', Array [Text ''a''])])) (\<lambda>k q. []) [] None 0 =
           StreamResponse (Some tr) \<and>
         start (make_generators (\<lambda>k q. []) [Text ''a'']) [] None 0 = Some tr"
    using th[of "Object [(''queries'', Array [Text ''a''])]", THEN conjunct2] unfolding d by simp
  from 0 1 2 3 4 5 show ?thesis by (intro conjI)
qed

text \<open>
  The claim C9 as it stands fails in two ways.  The body \<open>null\<close> is answered with status
  500: neither the 400 response nor a stream.  The body \<open>{queries: [0]}\<close> is answered
  with the 400 response although its query list is not empty and its one entry, the
  number \<open>0\<close>, is neither missing nor the empty string.
\<close>

theorem POST_answers_counterexample:
  "POST (Resolves Null) (\<lambda>k q. []) [] None 0 =
     JsonResponse 500
       (JSON_stringify
          [(''error'', Str (''Cannot read properties of null (reading '' @ [CHR 0x27] @
                            ''queries'' @ [CHR 0x27] @ '')''))]) \<and>
   query_list (Object [(''queries'', Array [Number (Finite 0)])]) = [Number (Finite 0)] \<and>
   Number (Finite 0) \<noteq> Undefined \<and> Number (Finite 0) \<noteq> Null \<and> Number (Finite 0) \<noteq> Text [] \<and>
   POST (Resolves (Object [(''queries'', Array [Number (Finite 0)])])) (\<lambda>k q. []) [] None 0 =
     JsonResponse 400 (JSON_stringify [(''error'', Str ''Query or queries required'')])"
  by code_simp

section \<open>The claims about frames and the consumer\<close>

lemma on_chunk_event_frame:
  "on_chunk (event_frame v) st = dispatch (JsonObject (object_of v)) st"
  unfolding event_frame_def by (rule on_chunk_frame[OF distinct_object_of])

text \<open>
  C6 (as amended).  Every frame on the stream of a run decodes, by the consumer's
  procedure, to one JSON object with a \<open>type\<close>.  Either the object also has a
  \<open>timestamp\<close>, and it lacks \<open>job\<close> exactly when its type is \<open>complete\<close>; or it is the
  frame of the \<open>catch\<close> block, \<open>{type: 'error', error: message}\<close>, which is the last frame
  of the stream: only the call of \<open>controller.close\<close> follows it.
\<close>

theorem frames_carry_type_and_timestamp:
  assumes "start gens sched c now = Some tr" and "f \<in> set (enqueued tr)"
  shows "\<exists>obj. on_chunk f st = dispatch (JsonObject obj) st \<and>
           map_of obj ''type'' \<noteq> None \<and>
           ((map_of obj ''timestamp'' \<noteq> None \<and>
             (map_of obj ''job'' = None \<longleftrightarrow> map_of obj ''type'' = Some (Str ''complete''))) \<or>
            (\<exists>t pre. obj = [(''type'', Str ''error''), (''error'', Str (error_message t))] \<and>
                     (tr = pre @ [Enqueue f, Close] \<or> tr = pre @ [Enqueue f, CloseThrows])))"
proof -
  have ev: "\<exists>obj. on_chunk (event_frame v) st = dispatch (JsonObject obj) st \<and>
           map_of obj ''type'' \<noteq> None \<and>
           ((map_of obj ''timestamp'' \<noteq> None \<and>
             (map_of obj ''job'' = None \<longleftrightarrow> map_of obj ''type'' = Some (Str ''complete''))) \<or>
            (\<exists>t pre. obj = [(''type'', Str ''error''), (''error'', Str (error_message t))] \<and>
                     (tr = pre @ [Enqueue (event_frame v), Close] \<or>
                      tr = pre @ [Enqueue (event_frame v), CloseThrows])))" for v
    by (rule exI[of _ "object_of v"])
      (intro conjI disjI1 on_chunk_event_frame[of v st] object_of_fields[of v])
  have body: ?thesis if "loop_trace body" "f \<in> set (enqueued body)" for body
  proof -
    from that obtain v where "f = event_frame v"
      using enqueued_loop_trace_mem by metis
    then show ?thesis using ev by simp
  qed
  show ?thesis
  proof (cases rule: start_run[of gens sched c now])
    case (completed body tail)
    from completed(8) have "enqueued tail = []" by auto
    with completed(1) assms have "f \<in> set (enqueued body) \<or> f = event_frame (CompleteEvent now)"
      by auto
    then show ?thesis using body[OF completed(2)] ev by blast
  next
    case (complete_throws body)
    with assms have "f \<in> set (enqueued body)" by auto
    then show ?thesis using body[OF complete_throws(2)] by blast
  next
    case (failed body t tail)
    show ?thesis
    proof (cases "f \<in> set (enqueued body)")
      case True
      then show ?thesis using body[OF failed(2)] by blast
    next
      case False
      with failed(1) assms have ft: "f \<in> set (enqueued tail)" by auto
      with failed(6) have f: "f = error_frame t"
        and tl: "tail = [Enqueue (error_frame t), Close] \<or>
                 tail = [Enqueue (error_frame t), CloseThrows]"
        by auto
      have tr: "tr = (map Next [0..<length gens] @ body) @ [Enqueue f, Close] \<or>
                tr = (map Next [0..<length gens] @ body) @ [Enqueue f, CloseThrows]"
        using failed(1) assms(1) tl f by auto
      have "on_chunk (error_frame t) st =
          dispatch (JsonObject [(''type'', Str ''error''), (''error'', Str (error_message t))]) st"
        unfolding error_frame_def by (rule on_chunk_frame) simp
      moreover have
        "map_of [(''type'', Str ''error''), (''error'', Str (error_message t))] ''type'' \<noteq> None"
        by simp
      ultimately show ?thesis using f tr by blast
    qed
  next
    case (cancelled body g v)
    with assms have "f \<in> set (enqueued body)" by auto
    then show ?thesis using body[OF cancelled(2)] by blast
  qed
qed

theorem frames_carry_type_and_timestamp_witness:
  "start [[Yield (JobDoneEvent 0 1)]] [] None 9 =
     Some [Next 0, Received 0 (Value (JobDoneEvent 0 1)), Enqueue (event_frame (JobDoneEvent 0 1)),
           Next 0, Received 0 Done, Delete 0, Enqueue (event_frame (CompleteEvent 9)), Close] \<and>
   event_frame (JobDoneEvent 0 1) \<in>
     set (enqueued [Next 0, Received 0 (Value (JobDoneEvent 0 1)),
           Enqueue (event_frame (JobDoneEvent 0 1)),
           Next 0, Received 0 Done, Delete 0, Enqueue (event_frame (CompleteEvent 9)), Close]) \<and>
   (\<exists>obj. on_chunk (event_frame (JobDoneEvent 0 1)) \<lparr>jobs = [], received = []\<rparr> =
            dispatch (JsonObject obj) \<lparr>jobs = [], received = []\<rparr> \<and>
          map_of obj ''type'' \<noteq> None)"
proof -
  have s: "start [[Yield (JobDoneEvent 0 1)]] [] None 9 =
     Some [Next 0, Received 0 (Value (JobDoneEvent 0 1)), Enqueue (event_frame (JobDoneEvent 0 1)),
           Next 0, Received 0 Done, Delete 0, Enqueue (event_frame (CompleteEvent 9)), Close]"
    by code_simp
  have m: "event_frame (JobDoneEvent 0 1) \<in>
     set (enqueued [Next 0, Received 0 (Value (JobDoneEvent 0 1)),
           Enqueue (event_frame (JobDoneEvent 0 1)),
           Next 0, Received 0 Done, Delete 0, Enqueue (event_frame (CompleteEvent 9)), Close])"
    by simp
  from frames_carry_type_and_timestamp[OF s m, of "\<lparr>jobs = [], received = []\<rparr>"]
  have "\<exists>obj. on_chunk (event_frame (JobDoneEvent 0 1)) \<lparr>jobs = [], received = []\<rparr> =
            dispatch (JsonObject obj) \<lparr>jobs = [], received = []\<rparr> \<and>
          map_of obj ''type'' \<noteq> None"
    by blast
  with s m show ?thesis by blast
qed

text \<open>
  The claim C6 as it stands fails for the frame of the \<open>catch\<close> block: the request of
  the only job is rejected with something that is not an \<open>Error\<close>; the one frame on the
  stream decodes to an object of type \<open>error\<close> with neither \<open>timestamp\<close> nor \<open>job\<close>.
\<close>

theorem catch_frame_counterexample:
  "POST (Resolves (Object [(''query'', Text ''q'')])) (\<lambda>k q. [StreamThrows NonError]) [] None 9 =
     StreamResponse (Some [Next 0, Enqueue (error_frame NonError), Close]) \<and>
   received (on_chunk (error_frame NonError) \<lparr>jobs = [], received = []\<rparr>) =
     [JsonObject [(''type'', Str ''error''), (''error'', Str ''Unknown error'')]] \<and>
   map_of [(''type'', Str ''error''), (''error'', Str ''Unknown error'')] ''timestamp'' = None \<and>
   map_of [(''type'', Str ''error''), (''error'', Str ''Unknown error'')] ''job'' = None \<and>
   map_of [(''type'', Str ''error''), (''error'', Str ''Unknown error'')] ''type'' \<noteq>
     Some (Str ''complete'')"
  by code_simp

text \<open>
  C7 (as amended).  When every chunk is made of whole frames (the frames of the events
  of \<open>ess\<close>, cut between frames in any way), the consumer dispatches exactly the framed
  events, in order, as one chunk holding the whole stream would.
\<close>

theorem decoder_on_whole_frames:
  "read_loop (map (\<lambda>es. concat (map event_frame es)) ess) st =
     fold (\<lambda>e. dispatch (JsonObject (object_of e))) (concat ess) st \<and>
   received (read_loop (map (\<lambda>es. concat (map event_frame es)) ess) st) =
     received st @ map (\<lambda>e. JsonObject (object_of e)) (concat ess)"
  by (simp add: read_loop_aligned received_fold_dispatch)

text \<open>
  The claim C7 as it stands fails: the frame of one event cut after its tenth byte is
  not put together again.  The first chunk starts with the marker but its rest is not
  JSON, the second does not start with the marker, and nothing is dispatched.
\<close>

theorem split_frame_counterexample:
  "concat [take 10 (event_frame (JobDoneEvent 0 5)), drop 10 (event_frame (JobDoneEvent 0 5))] =
     event_frame (JobDoneEvent 0 5) \<and>
   received (read_loop [take 10 (event_frame (JobDoneEvent 0 5)), drop 10 (event_frame (JobDoneEvent 0 5))]
      \<lparr>jobs = [], received = []\<rparr>) = [] \<and>
   received (read_loop [event_frame (JobDoneEvent 0 5)] \<lparr>jobs = [], received = []\<rparr>) =
     [JsonObject (object_of (JobDoneEvent 0 5))]"
  by code_simp

text \<open>
  The frame of an event whose numbers are integers: the one line of the frame that
  begins with \<open>data: \<close> is the marker followed by the JSON text, \<open>JSON.parse\<close> of that line
  without its first six characters is the object of the event, property for property,
  and this is what the consumer dispatches for the frame.
\<close>

lemma frame_round_trip:
  "filter (\<lambda>line. startsWith line ''data: '') (split_newline (event_frame e)) =
     [''data: '' @ JSON_stringify (object_of e)] \<and>
   JSON_parse (drop 6 (''data: '' @ JSON_stringify (object_of e))) = Some (JsonObject (object_of e)) \<and>
   on_chunk (event_frame e) st = dispatch (JsonObject (object_of e)) st"
proof -
  have "split_newline (sse_frame (JSON_stringify (object_of e)) @ []) =
        (''data: '' @ JSON_stringify (object_of e)) # [] # split_newline []"
    by (rule split_newline_frame[OF JSON_stringify_no_nl])
  then have "split_newline (event_frame e) = [''data: '' @ JSON_stringify (object_of e), [], []]"
    by (simp add: event_frame_def)
  then have "filter (\<lambda>line. startsWith line ''data: '') (split_newline (event_frame e)) =
     [''data: '' @ JSON_stringify (object_of e)]"
    by (simp add: startsWith_def)
  moreover have "JSON_parse (drop 6 (''data: '' @ JSON_stringify (object_of e))) =
      Some (JsonObject (object_of e))"
    by (simp add: JSON_parse_event)
  ultimately show ?thesis using on_chunk_event_frame[of e st] by blast
qed

section \<open>The first version against the present one\<close>

lemma start_forwards_yielded:
  assumes "\<forall>g \<in> set gens. throws g = None" "i < length gens" "v \<in> set (yielded (gens ! i))"
  shows "\<exists>tr. start gens sched None now = Some tr \<and> event_frame v \<in> set (enqueued tr)"
proof (cases rule: start_run[of gens sched None now])
  case (completed body tail)
  from completed(5) assms(2,3) have "(i, v) \<in> set (received_values body)"
    by (simp add: forwarded_mem[symmetric])
  then have "event_frame v \<in> set (enqueued body)"
    by (force simp: enqueued_loop_trace[OF completed(2)])
  with completed(1) show ?thesis by simp
next
  case (complete_throws body)
  then show ?thesis by simp
next
  case (failed body t tail)
  with assms(1) show ?thesis by (metis nth_mem option.distinct(1))
next
  case (cancelled body g v)
  then show ?thesis by simp
qed

lemma naive_run:
  "naive_start [[Yield (ContentEvent 0 ''a'' 1)], [Yield (ContentEvent 1 ''b'' 2)]] [0] None =
     Some [Next 0, Next 1, Received 0 (Value (ContentEvent 0 ''a'' 1)),
           Enqueue (event_frame (ContentEvent 0 ''a'' 1)),
           Next 0, Next 1, Received 0 Done, Delete 0,
           Next 1, Received 1 Done, Delete 1,
           Enqueue (sse_frame (JSON_stringify [(''type'', Str ''complete'')])), Close]"
  by code_simp

lemma naive_run_frames:
  "event_frame (ContentEvent 1 ''b'' 2) \<notin>
     set (enqueued [Next 0, Next 1, Received 0 (Value (ContentEvent 0 ''a'' 1)),
           Enqueue (event_frame (ContentEvent 0 ''a'' 1)),
           Next 0, Next 1, Received 0 Done, Delete 0,
           Next 1, Received 1 Done, Delete 1,
           Enqueue (sse_frame (JSON_stringify [(''type'', Str ''complete'')])), Close])"
  by code_simp

text \<open>
  C3.  There are generators and a schedule for which the first version of the loop,
  with a consumer that never cancels, calls \<open>next()\<close> on a generator a second time while
  the result of its first request has not been received (after six actions generator 1
  has two requests and no result), and an event that this generator yields has no frame
  on the stream; with the same consumer the present loop puts the frame of that event on
  the stream under every schedule.
\<close>

theorem naive_merge_drops_an_event:
  "\<exists>gens sched i v tr.
      i < length gens \<and> v \<in> set (yielded (gens ! i)) \<and>
      naive_start gens sched None = Some tr \<and>
      nexts i (take 6 tr) = 2 \<and> answers i (take 6 tr) = 0 \<and>
      event_frame v \<notin> set (enqueued tr) \<and>
      (\<forall>sched' now. \<exists>tr'. start gens sched' None now = Some tr' \<and>
                          event_frame v \<in> set (enqueued tr'))"
proof -
  let ?G = "[[Yield (ContentEvent 0 ''a'' 1)], [Yield (ContentEvent 1 ''b'' 2)]]"
  let ?T = "[Next 0, Next 1, Received 0 (Value (ContentEvent 0 ''a'' 1)),
           Enqueue (event_frame (ContentEvent 0 ''a'' 1)),
           Next 0, Next 1, Received 0 Done, Delete 0,
           Next 1, Received 1 Done, Delete 1,
           Enqueue (sse_frame (JSON_stringify [(''type'', Str ''complete'')])), Close]"
  have 1: "(1::nat) < length ?G" by simp
  have 2: "ContentEvent 1 ''b'' 2 \<in> set (yielded (?G ! 1))" by simp
  have 3: "nexts 1 (take 6 ?T) = 2" by code_simp
  have 4: "answers 1 (take 6 ?T) = 0" by code_simp
  have nt: "\<forall>g \<in> set ?G. throws g = None" by simp
  have 5: "\<forall>sched' now. \<exists>tr'. start ?G sched' None now = Some tr' \<and>
      event_frame (ContentEvent 1 ''b'' 2) \<in> set (enqueued tr')"
    using start_forwards_yielded[OF nt 1 2] by blast
  show ?thesis
    by (rule exI[of _ ?G], rule exI[of _ "[0]"], rule exI[of _ 1],
        rule exI[of _ "ContentEvent 1 ''b'' 2"], rule exI[of _ ?T])
      (intro conjI 1 2 3 4 5 naive_run naive_run_frames)
qed

end
